theory Spec2Isabelle
  imports Main "HOL-Library.Multiset"
begin

section \<open>JavaScript values and array objects\<close>

text \<open>
  The values that flow through a chain: array elements, the \<open>error\<close> and \<open>data\<close>
  arguments of a continuation, and the functions a caller hands in (identified by a number).
  \<open>Error m\<close> stands for an object such as \<^verbatim>\<open>new Error('stupid')\<close>.
\<close>

datatype jsval = Undefined | Null | Bool bool | Num int | Str string | Fn nat | Error string

text \<open>What \<^verbatim>\<open>if (v)\<close> tests.\<close>

fun truthy :: "jsval \<Rightarrow> bool" where
  "truthy Undefined = False"
| "truthy Null = False"
| "truthy (Bool b) = b"
| "truthy (Num n) = (n \<noteq> 0)"
| "truthy (Str s) = (s \<noteq> [])"
| "truthy (Fn f) = True"
| "truthy (Error m) = True"

text \<open>
  An array-like object: its indexed own properties and its \<open>length\<close>. For an array literal
  (\<open>native\<close>) the length follows every index write. An \<^verbatim>\<open>AsyncArray\<close> instance is an ordinary
  object whose prototype chain reaches \<^verbatim>\<open>Array.prototype\<close> (\<^verbatim>\<open>Array.call(this)\<close> does not
  turn \<open>this\<close> into an array): its length is a plain property that only \<^verbatim>\<open>push\<close> moves.
\<close>

record jsarray =
  native :: bool
  alength :: nat
  slots :: "nat \<Rightarrow> jsval option"

definition empty_array :: jsarray where
  \<comment> \<open>the literal \<^verbatim>\<open>[]\<close>\<close>
  "empty_array = \<lparr>native = True, alength = 0, slots = (\<lambda>_. None)\<rparr>"

definition of_list :: "jsval list \<Rightarrow> jsarray" where
  \<comment> \<open>the literal \<^verbatim>\<open>[x0, x1, ...]\<close>\<close>
  "of_list xs = \<lparr>native = True, alength = length xs,
                 slots = (\<lambda>i. if i < length xs then Some (xs ! i) else None)\<rparr>"

definition get :: "jsarray \<Rightarrow> nat \<Rightarrow> jsval" where
  \<comment> \<open>\<^verbatim>\<open>a[i]\<close>: a missing property reads as \<^verbatim>\<open>undefined\<close>\<close>
  "get a i = (case slots a i of None \<Rightarrow> Undefined | Some v \<Rightarrow> v)"

definition put :: "jsarray \<Rightarrow> nat \<Rightarrow> jsval \<Rightarrow> jsarray" where
  \<comment> \<open>\<^verbatim>\<open>a[i] = v\<close>\<close>
  "put a i v = a\<lparr>slots := (slots a)(i \<mapsto> v),
                  alength := (if native a then max (alength a) (Suc i) else alength a)\<rparr>"

definition push :: "jsarray \<Rightarrow> jsval \<Rightarrow> jsarray" where
  \<comment> \<open>\<^verbatim>\<open>Array.prototype.push\<close> with one argument; it is generic in \<open>this\<close>\<close>
  "push a v = a\<lparr>slots := (slots a)(alength a \<mapsto> v), alength := Suc (alength a)\<rparr>"

definition elements :: "jsarray \<Rightarrow> jsval list" where
  \<comment> \<open>the values at \<open>0 .. length - 1\<close>, as \<^verbatim>\<open>apply\<close> reads an array-like argument list\<close>
  "elements a = map (get a) [0..<alength a]"

definition get_prop :: "jsarray \<Rightarrow> jsval \<Rightarrow> jsval" where
  \<comment> \<open>\<^verbatim>\<open>a[v]\<close> for a computed key; only array indices occur as keys\<close>
  "get_prop a v = (case v of Num n \<Rightarrow> (if 0 \<le> n then get a (nat n) else Undefined)
                   | _ \<Rightarrow> Undefined)"

text \<open>
  \<^verbatim>\<open>function AsyncArray (arr) { Array.call(this); if (arr) { this.push.apply(this, arr) } }\<close>
  The argument, when given, is an object and therefore truthy. Without own \<open>length\<close> the
  instance reads length 0 from \<^verbatim>\<open>Array.prototype\<close>.
\<close>

definition AsyncArray :: "jsarray option \<Rightarrow> jsarray" where
  "AsyncArray arr =
     (let this = \<lparr>native = False, alength = 0, slots = (\<lambda>_. None)\<rparr>
      in case arr of None \<Rightarrow> this | Some a \<Rightarrow> foldl push this (elements a))"

fun num_of :: "jsval \<Rightarrow> int" where
  "num_of (Num n) = n"
| "num_of _ = 0"

definition sort_SORTFN :: "jsarray \<Rightarrow> jsarray" where
  \<comment> \<open>\<^verbatim>\<open>a.sort(Filter.SORTFN)\<close> with \<^verbatim>\<open>SORTFN = function (a, b) { return a - b }\<close>, on the
      hole-free arrays of indices that a filter step builds\<close>
  "sort_SORTFN a = of_list (sort_key num_of (elements a))"

section \<open>Operations and steps\<close>

datatype kind = ForEach | MapK | FilterK

text \<open>
  \<^verbatim>\<open>function Step (oper, callback, serial)\<close>, and \<^verbatim>\<open>Map\<close> and \<^verbatim>\<open>Filter\<close> which call it.
  \<open>kind\<close> records the constructor, which decides the \<open>next\<close> and \<open>done\<close> methods the
  step has. The caller's functions are known by number.
\<close>

record step =
  kind :: kind
  callbacks :: "nat list"
  callback :: nat
  serial :: bool

definition Step :: "kind \<Rightarrow> nat \<Rightarrow> bool option \<Rightarrow> step" where
  \<comment> \<open>\<^verbatim>\<open>this.serial = serial || false\<close>\<close>
  "Step kd cb ser = \<lparr>kind = kd, callbacks = [], callback = cb,
                     serial = (case ser of None \<Rightarrow> False | Some b \<Rightarrow> b)\<rparr>"

text \<open>An operation holds a reference to its \<^verbatim>\<open>AsyncArray\<close> and its steps.\<close>

record operation =
  array :: nat
  steps :: "step list"

definition Operation :: "nat \<Rightarrow> operation" where
  "Operation a = \<lparr>array = a, steps = []\<rparr>"

definition forEach :: "nat \<Rightarrow> operation \<Rightarrow> operation" where
  "forEach cb this = this\<lparr>steps := steps this @ [Step ForEach cb None]\<rparr>"

definition forEachSerial :: "nat \<Rightarrow> operation \<Rightarrow> operation" where
  "forEachSerial cb this = this\<lparr>steps := steps this @ [Step ForEach cb (Some True)]\<rparr>"

definition map_op :: "nat \<Rightarrow> operation \<Rightarrow> operation" where
  "map_op cb this = this\<lparr>steps := steps this @ [Step MapK cb None]\<rparr>"

definition mapSerial :: "nat \<Rightarrow> operation \<Rightarrow> operation" where
  "mapSerial cb this = this\<lparr>steps := steps this @ [Step MapK cb (Some True)]\<rparr>"

definition filter_op :: "nat \<Rightarrow> operation \<Rightarrow> operation" where
  "filter_op cb this = this\<lparr>steps := steps this @ [Step FilterK cb None]\<rparr>"

definition filterSerial :: "nat \<Rightarrow> operation \<Rightarrow> operation" where
  "filterSerial cb this = this\<lparr>steps := steps this @ [Step FilterK cb (Some True)]\<rparr>"

text \<open>
  \<^verbatim>\<open>Operation.prototype.lastStep\<close>: \<^verbatim>\<open>this.steps[this.steps.length - 1]\<close>, which is
  \<^verbatim>\<open>undefined\<close> (\<open>None\<close>) when there is no step.
\<close>

definition lastStep :: "operation \<Rightarrow> step option" where
  "lastStep this = (if steps this = [] then None else Some (steps this ! (length (steps this) - 1)))"

text \<open>
  \<^verbatim>\<open>Operation.prototype.done\<close>: \<^verbatim>\<open>this.lastStep().callbacks.push(callback)\<close>. With no step
  the property read on \<^verbatim>\<open>undefined\<close> throws: the result \<open>None\<close>.
\<close>

definition Operation_done :: "nat \<Rightarrow> operation \<Rightarrow> operation option" where
  "Operation_done cb this =
     (case lastStep this of
        None \<Rightarrow> None
      | Some s \<Rightarrow>
          Some (this\<lparr>steps := (steps this)[length (steps this) - 1 :=
                                   s\<lparr>callbacks := callbacks s @ [cb]\<rparr>]\<rparr>))"

section \<open>Run state\<close>

text \<open>
  A continuation handed to a worker is one of two closures of \<^verbatim>\<open>Step.prototype.run\<close>:
  the per-element closure of the parallel branch, which captures the step state and the
  index \<open>i\<close>, or \<^verbatim>\<open>state.serialfn\<close>, which captures the step state only.
\<close>

datatype cont = Cont nat nat | SerialFn nat

text \<open>
  The calls the engine makes to the caller's functions, in order:
  \<open>Worker k item i f\<close> is \<^verbatim>\<open>steps[k].callback(item, i, f)\<close>;
  \<open>Callback k cb error r xs\<close> is \<^verbatim>\<open>cb.call(oper, error, result)\<close> for a completion callback
  \<open>cb\<close> of step \<open>k\<close>, where \<open>r\<close> is the address of \<open>result\<close> and \<open>xs\<close> its elements at the
  time of the call.
\<close>

datatype action =
    Worker nat jsval nat cont
  | Callback nat nat jsval nat "jsval list"

text \<open>
  \<^verbatim>\<open>function StepState (step, oper_state, array, result)\<close>. The step is known by its position
  in \<^verbatim>\<open>oper.steps\<close>, the \<^verbatim>\<open>OperState\<close> by its position among those created, arrays by
  address. The field \<^verbatim>\<open>serialfn\<close> is assigned once, in \<^verbatim>\<open>run\<close>, and holds the closure
  \<open>SerialFn\<close> of this very state; it is not stored.
\<close>

record stepstate =
  st_step :: nat
  st_oper_state :: nat
  st_array :: nat
  st_result :: nat
  st_count :: nat
  st_done :: bool

definition StepState :: "nat \<Rightarrow> nat \<Rightarrow> nat \<Rightarrow> nat option \<Rightarrow> stepstate" where
  \<comment> \<open>\<^verbatim>\<open>this.result = result || array\<close>: an array object, even an empty one, is truthy\<close>
  "StepState stp os arr res =
     \<lparr>st_step = stp, st_oper_state = os, st_array = arr,
      st_result = (case res of Some r \<Rightarrow> r | None \<Rightarrow> arr),
      st_count = 0, st_done = False\<rparr>"

text \<open>
  Everything a chain execution can reach: the array objects (an address is a position in
  \<open>heap\<close>), the \<^verbatim>\<open>index\<close> of every \<^verbatim>\<open>OperState\<close>, every \<^verbatim>\<open>StepState\<close>, and the calls made
  so far.
\<close>

record config =
  heap :: "jsarray list"
  opers :: "nat list"
  sstates :: "stepstate list"
  trace :: "action list"

section \<open>The engine\<close>

text \<open>
  \<^verbatim>\<open>Step.prototype.run\<close>. The parallel branch is \<^verbatim>\<open>Array.prototype.forEach.call(array, ...)\<close>,
  which visits the indices below \<open>length\<close> that are present. A worker may call its
  continuation at once or later; either way the call runs \<open>next\<close> on the same state, and the
  loop itself reads and writes none of it, so the model records the worker calls of the
  loop and takes every continuation call as an event of its own (\<open>call\<close> below).
\<close>

definition Step_run :: "operation \<Rightarrow> nat \<Rightarrow> nat \<Rightarrow> nat \<Rightarrow> config \<Rightarrow> config" where
  "Step_run op k os arr c =
     (let sid = length (sstates c);
          state = StepState k os arr (Some (length (heap c)));
          c1 = c\<lparr>heap := heap c @ [empty_array], sstates := sstates c @ [state]\<rparr>;
          a = heap c1 ! arr
      in if serial (steps op ! k)
         then c1\<lparr>trace := trace c1 @ [Worker k (get a 0) 0 (SerialFn sid)]\<rparr>
         else c1\<lparr>trace := trace c1 @
                   map (\<lambda>i. Worker k (get a i) i (Cont sid i))
                       (filter (\<lambda>i. slots a i \<noteq> None) [0..<alength a])\<rparr>)"

text \<open>\<^verbatim>\<open>Operation.prototype._next\<close>\<close>

definition Operation_next :: "operation \<Rightarrow> nat \<Rightarrow> jsval \<Rightarrow> nat \<Rightarrow> config \<Rightarrow> config" where
  "Operation_next op os error result c =
     (if truthy error then c
      else let c1 = c\<lparr>opers := (opers c)[os := Suc (opers c ! os)]\<rparr>;
               index = opers c1 ! os
           in if index < length (steps op) then Step_run op index os result c1 else c1)"

text \<open>\<^verbatim>\<open>Step.prototype.done\<close>\<close>

definition Step_done :: "operation \<Rightarrow> nat \<Rightarrow> jsval \<Rightarrow> config \<Rightarrow> config" where
  "Step_done op sid error c =
     (let state = sstates c ! sid;
          r = length (heap c);
          c1 = c\<lparr>heap := heap c @ [AsyncArray (Some (heap c ! st_result state))],
                 sstates := (sstates c)[sid := state\<lparr>st_result := r\<rparr>]\<rparr>;
          c2 = c1\<lparr>trace := trace c1 @
                    map (\<lambda>cb. Callback (st_step state) cb error r (elements (heap c1 ! r)))
                        (callbacks (steps op ! st_step state))\<rparr>
      in Operation_next op (st_oper_state state) error r c2)"

text \<open>\<^verbatim>\<open>Filter.prototype.done\<close>\<close>

definition Filter_done :: "operation \<Rightarrow> nat \<Rightarrow> jsval \<Rightarrow> config \<Rightarrow> config" where
  "Filter_done op sid error c =
     (let state = sstates c ! sid
      in Step_done op sid error
          (if \<not> truthy error \<and> \<not> serial (steps op ! st_step state)
           then let result = sort_SORTFN (heap c ! st_result state);
                    a = heap c ! st_array state;
                    new = foldl (\<lambda>res i. push res (get_prop a (get result i)))
                            empty_array [0..<alength result]
                in c\<lparr>heap := (heap c)[st_result state := result] @ [new],
                     sstates := (sstates c)[sid := state\<lparr>st_result := length (heap c)\<rparr>]\<rparr>
           else c))"

definition this_done :: "operation \<Rightarrow> nat \<Rightarrow> jsval \<Rightarrow> config \<Rightarrow> config" where
  \<comment> \<open>\<^verbatim>\<open>this.done(error, state)\<close>, resolved along the prototype chain of the step\<close>
  "this_done op sid error c =
     (case kind (steps op ! st_step (sstates c ! sid)) of
        FilterK \<Rightarrow> Filter_done op sid error c
      | _ \<Rightarrow> Step_done op sid error c)"

text \<open>\<^verbatim>\<open>Step.prototype.next\<close>\<close>

definition set_done :: "nat \<Rightarrow> config \<Rightarrow> config" where
  \<comment> \<open>\<^verbatim>\<open>state.done = true\<close>\<close>
  "set_done sid c = c\<lparr>sstates := (sstates c)[sid := (sstates c ! sid)\<lparr>st_done := True\<rparr>]\<rparr>"

definition Step_next :: "operation \<Rightarrow> nat \<Rightarrow> nat \<Rightarrow> jsval \<Rightarrow> jsval \<Rightarrow> config \<Rightarrow> config" where
  "Step_next op sid i error data c =
     (let state = sstates c ! sid
      in if st_done state then c
         else if truthy error then this_done op sid error (set_done sid c)
         else let count = Suc (st_count state);
                  c1 = c\<lparr>sstates := (sstates c)[sid := state\<lparr>st_count := count\<rparr>]\<rparr>;
                  a = heap c1 ! st_array state
              in if serial (steps op ! st_step state)
                 then if count \<ge> alength a then this_done op sid Null (set_done sid c1)
                      else c1\<lparr>trace := trace c1 @
                                [Worker (st_step state) (get a count) count (SerialFn sid)]\<rparr>
                 else if count \<ge> alength a then this_done op sid Null (set_done sid c1)
                      else c1)"

text \<open>\<^verbatim>\<open>Map.prototype.next\<close>\<close>

definition Map_next :: "operation \<Rightarrow> nat \<Rightarrow> nat \<Rightarrow> jsval \<Rightarrow> jsval \<Rightarrow> config \<Rightarrow> config" where
  "Map_next op sid i error data c =
     (let r = st_result (sstates c ! sid)
      in Step_next op sid i error data (c\<lparr>heap := (heap c)[r := put (heap c ! r) i data]\<rparr>))"

text \<open>\<^verbatim>\<open>Filter.prototype.next\<close>\<close>

definition Filter_next :: "operation \<Rightarrow> nat \<Rightarrow> nat \<Rightarrow> jsval \<Rightarrow> jsval \<Rightarrow> config \<Rightarrow> config" where
  "Filter_next op sid i error data c =
     (let r = st_result (sstates c ! sid)
      in Step_next op sid i error data
           (if data = Bool True
            then c\<lparr>heap := (heap c)[r := push (heap c ! r) (Num (int i))]\<rparr>
            else c))"

definition this_next :: "operation \<Rightarrow> nat \<Rightarrow> nat \<Rightarrow> jsval \<Rightarrow> jsval \<Rightarrow> config \<Rightarrow> config" where
  \<comment> \<open>\<^verbatim>\<open>step.next(state, i, error, data)\<close>, resolved along the prototype chain of the step\<close>
  "this_next op sid i error data c =
     (case kind (steps op ! st_step (sstates c ! sid)) of
        ForEach \<Rightarrow> Step_next op sid i error data c
      | MapK \<Rightarrow> Map_next op sid i error data c
      | FilterK \<Rightarrow> Filter_next op sid i error data c)"

text \<open>
  \<^verbatim>\<open>Operation.prototype.exec\<close>. The function declares no parameter and never reads
  \<^verbatim>\<open>arguments\<close>; \<open>args\<close> is whatever the caller passes. With no step, \<^verbatim>\<open>this.steps[0].run\<close>
  throws: the result \<open>None\<close>.
\<close>

definition Operation_exec :: "operation \<Rightarrow> jsval list \<Rightarrow> config \<Rightarrow> config option" where
  "Operation_exec op args c =
     (if steps op = [] then None
      else let state = length (opers c)
           in Some (Step_run op 0 state (array op) (c\<lparr>opers := opers c @ [0]\<rparr>)))"

section \<open>Continuation calls\<close>

text \<open>
  A continuation can be called once a worker has received it. The closure of the
  parallel branch calls \<^verbatim>\<open>step.next(state, i, error, data)\<close> with its own \<open>i\<close>;
  \<^verbatim>\<open>serialfn\<close> calls \<^verbatim>\<open>step.next(state, state.count, error, data)\<close>.
\<close>

definition handed :: "cont \<Rightarrow> config \<Rightarrow> bool" where
  "handed f c = list_ex (\<lambda>a. case a of Worker k x i g \<Rightarrow> g = f | _ \<Rightarrow> False) (trace c)"

fun state_of :: "cont \<Rightarrow> nat" where
  "state_of (Cont sid i) = sid"
| "state_of (SerialFn sid) = sid"

datatype event = Call cont jsval jsval

fun call :: "operation \<Rightarrow> config \<Rightarrow> event \<Rightarrow> config" where
  "call op c (Call f error data) =
     (if handed f c \<and> state_of f < length (sstates c)
      then (case f of
              Cont sid i \<Rightarrow> this_next op sid i error data c
            | SerialFn sid \<Rightarrow> this_next op sid (st_count (sstates c ! sid)) error data c)
      else c)"

definition calls :: "operation \<Rightarrow> config \<Rightarrow> event list \<Rightarrow> config" where
  "calls op c es = foldl (call op) c es"

text \<open>
  The state before any execution: the caller's \<^verbatim>\<open>AsyncArray\<close>, built from the array
  literal \<open>xs\<close>, at address 0.
\<close>

definition start :: "jsval list \<Rightarrow> config" where
  "start xs = \<lparr>heap = [AsyncArray (Some (of_list xs))], opers = [], sstates = [], trace = []\<rparr>"


section \<open>The runs of \<^verbatim>\<open>test.js\<close> and other small chains\<close>

definition items :: "jsval list" where
  \<comment> \<open>\<^verbatim>\<open>new AsyncArray([1, 2, 'three', 4])\<close>\<close>
  "items = [Num 1, Num 2, Str ''three'', Num 4]"

definition filterSerial_chain :: operation where
  \<comment> \<open>\<^verbatim>\<open>items.filterSerial(worker).done(cb)\<close>, worker 1 and callback 7\<close>
  "filterSerial_chain = the (Operation_done 7 (filterSerial 1 (Operation 0)))"

definition filter_chain :: operation where
  \<comment> \<open>\<^verbatim>\<open>items.filter(worker).done(cb)\<close>\<close>
  "filter_chain = the (Operation_done 7 (filter_op 1 (Operation 0)))"

definition map_chain :: operation where
  \<comment> \<open>\<^verbatim>\<open>items.map(worker).done(cb)\<close>\<close>
  "map_chain = the (Operation_done 7 (map_op 1 (Operation 0)))"

definition forEach_chain :: operation where
  \<comment> \<open>\<^verbatim>\<open>items.forEach(worker).done(cb)\<close>\<close>
  "forEach_chain = the (Operation_done 7 (forEach 1 (Operation 0)))"

definition forEachSerial_chain :: operation where
  \<comment> \<open>\<^verbatim>\<open>items.forEachSerial(worker).done(cb)\<close>\<close>
  "forEachSerial_chain = the (Operation_done 7 (forEachSerial 1 (Operation 0)))"

definition forEach_map_chain :: operation where
  \<comment> \<open>\<^verbatim>\<open>items.forEach(w1).done(cb1).map(w2).done(cb2)\<close>\<close>
  "forEach_map_chain =
     the (Operation_done 8 (map_op 2 (the (Operation_done 7 (forEach 1 (Operation 0))))))"

definition keep_nonstrings :: "jsval \<Rightarrow> jsval \<times> jsval" where
  \<comment> \<open>the filter worker of \<^verbatim>\<open>test.js\<close>: \<^verbatim>\<open>next()\<close> for a string, \<^verbatim>\<open>next(null, true)\<close> otherwise\<close>
  "keep_nonstrings item =
     (case item of Str s \<Rightarrow> (Undefined, Undefined) | _ \<Rightarrow> (Null, Bool True))"

definition map_events :: "event list" where
  \<comment> \<open>the continuations of the first run of \<^verbatim>\<open>test.js\<close>, called in reverse order\<close>
  "map_events = [Call (Cont 0 3) Null (Str ''did 3''), Call (Cont 0 2) Null (Str ''did 2''),
                 Call (Cont 0 1) Null (Str ''did 1''), Call (Cont 0 0) Null (Str ''did 0'')]"

definition map_map_chain :: operation where
  \<comment> \<open>\<^verbatim>\<open>items.map(w1).done(cb1).map(w2).done(cb2)\<close>\<close>
  "map_map_chain =
     the (Operation_done 8 (map_op 2 (the (Operation_done 7 (map_op 1 (Operation 0))))))"

definition did :: "nat \<Rightarrow> jsval" where
  \<comment> \<open>what the map worker of \<^verbatim>\<open>test.js\<close> produces: \<^verbatim>\<open>'did ' + i\<close>\<close>
  "did i = [Str ''did 0'', Str ''did 1'', Str ''did 2'', Str ''did 3''] ! i"

section \<open>Notions used in the statements and proofs\<close>

subsection \<open>Parts of the engine, named\<close>

text \<open>
  The worker calls that \<^verbatim>\<open>run\<close> makes for step \<open>k\<close>, step state \<open>sid\<close> and input array \<open>a\<close>.
\<close>

definition dispatch :: "operation \<Rightarrow> nat \<Rightarrow> nat \<Rightarrow> jsarray \<Rightarrow> action list" where
  "dispatch op k sid a =
     (if serial (steps op ! k) then [Worker k (get a 0) 0 (SerialFn sid)]
      else map (\<lambda>i. Worker k (get a i) i (Cont sid i))
             (filter (\<lambda>i. slots a i \<noteq> None) [0..<alength a]))"

text \<open>
  What the step's own \<open>next\<close> writes before it calls \<^verbatim>\<open>Step.prototype.next\<close>: on one array
  (\<open>array_write\<close>), on the heap (\<open>before_next\<close>), and for a list of calls that start from
  \<^verbatim>\<open>[]\<close> (\<open>writes\<close>).
\<close>

definition array_write :: "kind \<Rightarrow> jsarray \<Rightarrow> nat \<Rightarrow> jsval \<Rightarrow> jsarray" where
  "array_write kd a i data =
     (case kd of
        ForEach \<Rightarrow> a
      | MapK \<Rightarrow> put a i data
      | FilterK \<Rightarrow> if data = Bool True then push a (Num (int i)) else a)"

definition before_next :: "operation \<Rightarrow> nat \<Rightarrow> nat \<Rightarrow> jsval \<Rightarrow> config \<Rightarrow> jsarray list" where
  "before_next op sid i data c =
     (let r = st_result (sstates c ! sid)
      in case kind (steps op ! st_step (sstates c ! sid)) of
           ForEach \<Rightarrow> heap c
         | MapK \<Rightarrow> (heap c)[r := put (heap c ! r) i data]
         | FilterK \<Rightarrow> if data = Bool True then (heap c)[r := push (heap c ! r) (Num (int i))]
                       else heap c)"

definition writes :: "kind \<Rightarrow> (nat \<Rightarrow> jsval) \<Rightarrow> nat list \<Rightarrow> jsarray" where
  "writes kd dat is = foldl (\<lambda>a i. array_write kd a i (dat i)) empty_array is"

text \<open>
  What the step's own \<open>done\<close> does before it calls \<^verbatim>\<open>Step.prototype.done\<close>: the block of
  \<^verbatim>\<open>Filter.prototype.done\<close>, nothing for the other kinds.
\<close>

definition before_done :: "operation \<Rightarrow> nat \<Rightarrow> jsval \<Rightarrow> config \<Rightarrow> config" where
  "before_done op sid e c =
     (let state = sstates c ! sid
      in if kind (steps op ! st_step state) = FilterK \<and> \<not> truthy e
            \<and> \<not> serial (steps op ! st_step state)
         then let result = sort_SORTFN (heap c ! st_result state);
                  a = heap c ! st_array state;
                  new = foldl (\<lambda>res i. push res (get_prop a (get result i)))
                          empty_array [0..<alength result]
              in c\<lparr>heap := (heap c)[st_result state := result] @ [new],
                   sstates := (sstates c)[sid := state\<lparr>st_result := length (heap c)\<rparr>]\<rparr>
         else c)"

text \<open>
  In \<^verbatim>\<open>_next\<close>: the index after \<^verbatim>\<open>++state.index\<close>, and whether another step is run.
\<close>

definition next_index :: "nat \<Rightarrow> config \<Rightarrow> nat" where
  "next_index os c = ((opers c)[os := Suc (opers c ! os)]) ! os"

definition goes_on :: "operation \<Rightarrow> nat \<Rightarrow> jsval \<Rightarrow> config \<Rightarrow> bool" where
  "goes_on op os e c = (\<not> truthy e \<and> next_index os c < length (steps op))"

text \<open>The index \<open>i\<close> that a continuation passes to \<open>next\<close>.\<close>

fun call_index :: "cont \<Rightarrow> config \<Rightarrow> nat" where
  "call_index (Cont sid i) c = i"
| "call_index (SerialFn sid) c = st_count (sstates c ! sid)"

subsection \<open>Reading the record of calls\<close>

fun step_of :: "action \<Rightarrow> nat" where
  "step_of (Worker k x i f) = k"
| "step_of (Callback k cb e r xs) = k"

fun is_callback :: "action \<Rightarrow> bool" where
  "is_callback (Worker k x i f) = False"
| "is_callback (Callback k cb e r xs) = True"

text \<open>The indices of the worker calls that were handed the continuation \<open>f\<close>, in order.\<close>

fun worker_indices :: "cont \<Rightarrow> action list \<Rightarrow> nat list" where
  "worker_indices f [] = []"
| "worker_indices f (Worker k x i g # as) =
     (if g = f then i # worker_indices f as else worker_indices f as)"
| "worker_indices f (Callback k cb e r xs # as) = worker_indices f as"


text \<open>
  A call as the caller's functions see it: without the identity of the continuation and
  without the address of the result.
\<close>

fun visible :: "action \<Rightarrow> (nat \<times> jsval \<times> nat) + (nat \<times> nat \<times> jsval \<times> jsval list)" where
  "visible (Worker k x i f) = Inl (k, x, i)"
| "visible (Callback k cb e r xs) = Inr (k, cb, e, xs)"

subsection \<open>Invariants\<close>

text \<open>
  What holds of every state reached from \<open>start\<close> by \<^verbatim>\<open>exec\<close> and continuation calls
  (\<open>wf_start\<close>, \<open>wf_exec\<close>, \<open>wf_call\<close> below): references point to existing objects, no result
  array is the array of the operation, every continuation handed out belongs to an existing
  step state, and every completion callback called is registered on its step.
\<close>

definition wf_state :: "operation \<Rightarrow> config \<Rightarrow> stepstate \<Rightarrow> bool" where
  "wf_state op c s =
     (st_step s < length (steps op) \<and> st_oper_state s < length (opers c)
      \<and> st_array s < length (heap c) \<and> st_result s < length (heap c)
      \<and> st_result s \<noteq> array op)"

fun wf_action :: "operation \<Rightarrow> config \<Rightarrow> action \<Rightarrow> bool" where
  "wf_action op c (Worker k x i f) = (k < length (steps op) \<and> state_of f < length (sstates c))"
| "wf_action op c (Callback k cb e r xs) =
     (k < length (steps op) \<and> cb \<in> set (callbacks (steps op ! k)))"

definition wf :: "operation \<Rightarrow> config \<Rightarrow> bool" where
  "wf op c =
     (array op < length (heap c) \<and> list_all (wf_state op c) (sstates c)
      \<and> list_all (wf_action op c) (trace c))"


text \<open>
  What holds while a chain is executed once: the step states are those of steps
  \<open>0, 1, ...\<close> in order, all but the last are done, the \<^verbatim>\<open>OperState\<close> index is that of the last
  one while it runs, and a completion callback has only been called for a step that is done.
\<close>

definition solo :: "config \<Rightarrow> bool" where
  "solo c =
     (length (opers c) = 1 \<and> sstates c \<noteq> []
      \<and> (\<forall>j<length (sstates c). st_step (sstates c ! j) = j \<and> st_oper_state (sstates c ! j) = 0)
      \<and> (\<forall>j. Suc j < length (sstates c) \<longrightarrow> st_done (sstates c ! j))
      \<and> (\<not> st_done (last (sstates c)) \<longrightarrow> Suc (opers c ! 0) = length (sstates c))
      \<and> (\<forall>a\<in>set (trace c). step_of a < length (sstates c)
            \<and> (is_callback a \<longrightarrow> st_done (sstates c ! step_of a))))"



subsection \<open>A run placed after another\<close>

text \<open>
  An execution started in a state \<open>P\<close> that earlier executions have left creates its objects
  after those of \<open>P\<close>. \<open>embed P s\<close> is the state \<open>s\<close> of an execution from \<open>start\<close>, placed
  after \<open>P\<close>: the array of the operation stays at address 0, every other address \<open>r\<close> of \<open>s\<close>
  becomes \<open>rho P r\<close>, and the numbers of \<^verbatim>\<open>OperState\<close>s and \<^verbatim>\<open>StepState\<close>s, and with them the
  continuations, move up by the numbers of those in \<open>P\<close>.
\<close>

definition rho :: "config \<Rightarrow> nat \<Rightarrow> nat" where
  "rho P r = (if r = 0 then 0 else length (heap P) + r - 1)"

definition shift_state :: "config \<Rightarrow> stepstate \<Rightarrow> stepstate" where
  "shift_state P st =
     st\<lparr>st_oper_state := length (opers P) + st_oper_state st,
        st_array := rho P (st_array st), st_result := rho P (st_result st)\<rparr>"

fun shift_cont :: "nat \<Rightarrow> cont \<Rightarrow> cont" where
  "shift_cont n (Cont sid i) = Cont (n + sid) i"
| "shift_cont n (SerialFn sid) = SerialFn (n + sid)"

fun shift_action :: "config \<Rightarrow> action \<Rightarrow> action" where
  "shift_action P (Worker k x i f) = Worker k x i (shift_cont (length (sstates P)) f)"
| "shift_action P (Callback k cb e r xs) = Callback k cb e (rho P r) xs"


definition embed :: "config \<Rightarrow> config \<Rightarrow> config" where
  "embed P s =
     \<lparr>heap = (heap P)[0 := heap s ! 0] @ tl (heap s),
      opers = opers P @ opers s,
      sstates = sstates P @ map (shift_state P) (sstates s),
      trace = trace P @ map (shift_action P) (trace s)\<rparr>"

section \<open>Array objects\<close>

lemma foldl_push:
  "foldl push a xs =
     a\<lparr>slots := (\<lambda>i. if alength a \<le> i \<and> i < alength a + length xs
                       then Some (xs ! (i - alength a)) else slots a i),
       alength := alength a + length xs\<rparr>"
proof (induction xs arbitrary: a)
  case Nil
  have "(\<lambda>i. if alength a \<le> i \<and> i < alength a + length ([]::jsval list)
              then Some ([] ! (i - alength a)) else slots a i) = slots a"
    by (rule ext) auto
  then show ?case by simp
next
  case (Cons x xs)
  let ?b = "push a x"
  let ?F = "\<lambda>i. if alength a \<le> i \<and> i < alength a + length (x # xs)
                 then Some ((x # xs) ! (i - alength a)) else slots a i"
  have p: "alength ?b = Suc (alength a)" "slots ?b = (slots a)(alength a \<mapsto> x)"
    by (simp_all add: push_def)
  have feq: "(\<lambda>i. if alength ?b \<le> i \<and> i < alength ?b + length xs
                  then Some (xs ! (i - alength ?b)) else slots ?b i) = ?F"
    by (rule ext) (auto simp: p nth_Cons' Suc_diff_le)
  have "foldl push a (x # xs) = foldl push ?b xs"
    by simp
  also have "\<dots> = ?b\<lparr>slots := ?F, alength := alength ?b + length xs\<rparr>"
    by (simp only: Cons.IH [of ?b] feq)
  also have "\<dots> = a\<lparr>slots := ?F, alength := alength a + length (x # xs)\<rparr>"
    by (simp add: push_def)
  finally show ?case .
qed

lemma alength_AsyncArray [simp]: "alength (AsyncArray (Some a)) = alength a"
  by (simp add: AsyncArray_def foldl_push elements_def Let_def)

lemma native_AsyncArray [simp]: "native (AsyncArray arr) = False"
  by (cases arr) (simp_all add: AsyncArray_def foldl_push Let_def)

lemma slots_AsyncArray:
  "slots (AsyncArray (Some a)) i = (if i < alength a then Some (get a i) else None)"
  by (simp add: AsyncArray_def foldl_push elements_def Let_def)

lemma get_AsyncArray: "i < alength a \<Longrightarrow> get (AsyncArray (Some a)) i = get a i"
  by (simp add: get_def slots_AsyncArray)

lemma elements_AsyncArray [simp]: "elements (AsyncArray (Some a)) = elements a"
  by (simp add: elements_def get_AsyncArray)

lemma alength_of_list [simp]: "alength (of_list xs) = length xs"
  by (simp add: of_list_def)

lemma get_of_list: "i < length xs \<Longrightarrow> get (of_list xs) i = xs ! i"
  by (simp add: get_def of_list_def)

lemma elements_of_list [simp]: "elements (of_list xs) = xs"
  by (rule nth_equalityI) (simp_all add: elements_def get_of_list)

lemma length_elements [simp]: "length (elements a) = alength a"
  by (simp add: elements_def)

section \<open>Lemmas on the engine\<close>

subsection \<open>The effect of each method on each component of the state\<close>

lemma Step_run_simps [simp]:
  "heap (Step_run op k os arr c) = heap c @ [empty_array]"
  "opers (Step_run op k os arr c) = opers c"
  "sstates (Step_run op k os arr c) = sstates c @ [StepState k os arr (Some (length (heap c)))]"
  "trace (Step_run op k os arr c) =
     trace c @ dispatch op k (length (sstates c)) ((heap c @ [empty_array]) ! arr)"
  by (simp_all add: Step_run_def dispatch_def Let_def)

lemma this_next_Step_next:
  "this_next op sid i e d c = Step_next op sid i e d (c\<lparr>heap := before_next op sid i d c\<rparr>)"
  by (simp add: this_next_def Map_next_def Filter_next_def before_next_def Let_def
           Step_next_def split: kind.split)

lemma Operation_next_simps:
  "heap (Operation_next op os e r c) = heap c @ (if goes_on op os e c then [empty_array] else [])"
  "opers (Operation_next op os e r c) =
     (if truthy e then opers c else (opers c)[os := Suc (opers c ! os)])"
  "sstates (Operation_next op os e r c) =
     sstates c @ (if goes_on op os e c
                  then [StepState (next_index os c) os r (Some (length (heap c)))] else [])"
  "trace (Operation_next op os e r c) =
     trace c @ (if goes_on op os e c
                then dispatch op (next_index os c) (length (sstates c))
                       ((heap c @ [empty_array]) ! r)
                else [])"
  by (simp_all add: Operation_next_def goes_on_def next_index_def Let_def)

lemma Step_done_simps:
  "heap (Step_done op sid e c) =
     heap c @ [AsyncArray (Some (heap c ! st_result (sstates c ! sid)))] @
     (if goes_on op (st_oper_state (sstates c ! sid)) e c then [empty_array] else [])"
  "opers (Step_done op sid e c) =
     (if truthy e then opers c
      else (opers c)[st_oper_state (sstates c ! sid) :=
                       Suc (opers c ! st_oper_state (sstates c ! sid))])"
  "sstates (Step_done op sid e c) =
     (sstates c)[sid := (sstates c ! sid)\<lparr>st_result := length (heap c)\<rparr>] @
     (if goes_on op (st_oper_state (sstates c ! sid)) e c
      then [StepState (next_index (st_oper_state (sstates c ! sid)) c)
              (st_oper_state (sstates c ! sid)) (length (heap c)) (Some (Suc (length (heap c))))]
      else [])"
  "trace (Step_done op sid e c) =
     trace c @
     map (\<lambda>cb. Callback (st_step (sstates c ! sid)) cb e (length (heap c))
                 (elements (heap c ! st_result (sstates c ! sid))))
         (callbacks (steps op ! st_step (sstates c ! sid))) @
     (if goes_on op (st_oper_state (sstates c ! sid)) e c
      then dispatch op (next_index (st_oper_state (sstates c ! sid)) c) (length (sstates c))
             (AsyncArray (Some (heap c ! st_result (sstates c ! sid))))
      else [])"
  by (simp_all add: Step_done_def Operation_next_simps goes_on_def next_index_def Let_def)

lemma this_done_Step_done: "this_done op sid e c = Step_done op sid e (before_done op sid e c)"
  by (simp add: this_done_def Filter_done_def before_done_def Let_def split: kind.split)

lemma before_done_simps:
  "opers (before_done op sid e c) = opers c"
  "trace (before_done op sid e c) = trace c"
  "length (sstates (before_done op sid e c)) = length (sstates c)"
  "length (heap c) \<le> length (heap (before_done op sid e c))"
  "goes_on op os e' (before_done op sid e c) = goes_on op os e' c"
  "next_index os (before_done op sid e c) = next_index os c"
  by (simp_all add: before_done_def Let_def goes_on_def next_index_def)

lemma before_done_sstates:
  "sid < length (sstates c) \<Longrightarrow>
   sstates (before_done op sid e c) =
     (sstates c)[sid := (sstates c ! sid)\<lparr>st_result := st_result (sstates (before_done op sid e c) ! sid)\<rparr>]"
  by (simp add: before_done_def Let_def)


lemma this_done_control:
  fixes op :: operation and e :: jsval and c :: config and sid :: nat
  assumes "sid < length (sstates c)"
  defines "c' \<equiv> this_done op sid e c"
  defines "st \<equiv> sstates c ! sid"
  defines "r \<equiv> st_result (sstates c' ! sid)"
  shows "sstates c' =
           (sstates c)[sid := st\<lparr>st_result := r\<rparr>] @
           (if goes_on op (st_oper_state st) e c
            then [StepState (next_index (st_oper_state st) c) (st_oper_state st) r (Some (Suc r))]
            else [])"
    and "opers c' =
           (if truthy e then opers c
            else (opers c)[st_oper_state st := Suc (opers c ! st_oper_state st)])"
    and "trace c' =
           trace c @
           map (\<lambda>cb. Callback (st_step st) cb e r (elements (heap c' ! r)))
               (callbacks (steps op ! st_step st)) @
           (if goes_on op (st_oper_state st) e c
            then dispatch op (next_index (st_oper_state st) c) (length (sstates c)) (heap c' ! r)
            else [])"
    and "length (heap c) \<le> r" and "r < length (heap c')"
    and "length (heap c') = Suc r + (if goes_on op (st_oper_state st) e c then 1 else 0)"
proof -
  let ?b = "before_done op sid e c"
  have b: "sstates ?b = (sstates c)[sid := st\<lparr>st_result := st_result (sstates ?b ! sid)\<rparr>]"
    unfolding st_def using assms(1) by (rule before_done_sstates)
  have sb: "st_step (sstates ?b ! sid) = st_step st" "st_oper_state (sstates ?b ! sid) = st_oper_state st"
    using assms(1) by (subst b, simp)+
  have r: "r = length (heap ?b)"
    using assms(1)
    by (simp add: r_def c'_def this_done_Step_done Step_done_simps before_done_simps nth_append)
  show "sstates c' =
           (sstates c)[sid := st\<lparr>st_result := r\<rparr>] @
           (if goes_on op (st_oper_state st) e c
            then [StepState (next_index (st_oper_state st) c) (st_oper_state st) r (Some (Suc r))]
            else [])"
    unfolding c'_def this_done_Step_done Step_done_simps sb before_done_simps r
    by (subst b, subst (2) b) (use assms(1) in simp)
  show "opers c' =
           (if truthy e then opers c
            else (opers c)[st_oper_state st := Suc (opers c ! st_oper_state st)])"
    by (simp add: c'_def this_done_Step_done Step_done_simps sb before_done_simps)
  show "trace c' =
           trace c @
           map (\<lambda>cb. Callback (st_step st) cb e r (elements (heap c' ! r)))
               (callbacks (steps op ! st_step st)) @
           (if goes_on op (st_oper_state st) e c
            then dispatch op (next_index (st_oper_state st) c) (length (sstates c)) (heap c' ! r)
            else [])"
    by (simp add: c'_def this_done_Step_done Step_done_simps sb before_done_simps r nth_append)
  show "length (heap c) \<le> r"
    by (simp add: r before_done_simps)
  show "r < length (heap c')"
    by (simp add: c'_def this_done_Step_done Step_done_simps r)
  show "length (heap c') = Suc r + (if goes_on op (st_oper_state st) e c then 1 else 0)"
    by (simp add: c'_def this_done_Step_done Step_done_simps sb before_done_simps r)
qed

lemma before_next_length [simp]: "length (before_next op sid i d c) = length (heap c)"
  by (simp add: before_next_def Let_def split: kind.split)

lemma this_next_done:
  "st_done (sstates c ! sid) \<Longrightarrow>
   this_next op sid i e d c = c\<lparr>heap := before_next op sid i d c\<rparr>"
  by (simp add: this_next_Step_next Step_next_def)

lemma this_next_error:
  "\<not> st_done (sstates c ! sid) \<Longrightarrow> truthy e \<Longrightarrow>
   this_next op sid i e d c =
     this_done op sid e (set_done sid (c\<lparr>heap := before_next op sid i d c\<rparr>))"
  by (simp add: this_next_Step_next Step_next_def)

lemma this_next_more:
  "\<not> st_done (sstates c ! sid) \<Longrightarrow> \<not> truthy e \<Longrightarrow>
   Suc (st_count (sstates c ! sid)) < alength (before_next op sid i d c ! st_array (sstates c ! sid)) \<Longrightarrow>
   this_next op sid i e d c =
     c\<lparr>heap := before_next op sid i d c,
       sstates := (sstates c)[sid := (sstates c ! sid)\<lparr>st_count := Suc (st_count (sstates c ! sid))\<rparr>],
       trace := trace c @
         (if serial (steps op ! st_step (sstates c ! sid))
          then [Worker (st_step (sstates c ! sid))
                  (get (before_next op sid i d c ! st_array (sstates c ! sid))
                       (Suc (st_count (sstates c ! sid))))
                  (Suc (st_count (sstates c ! sid))) (SerialFn sid)]
          else [])\<rparr>"
  by (simp add: this_next_Step_next Step_next_def Let_def)

lemma this_next_last:
  "\<not> st_done (sstates c ! sid) \<Longrightarrow> \<not> truthy e \<Longrightarrow>
   \<not> Suc (st_count (sstates c ! sid)) < alength (before_next op sid i d c ! st_array (sstates c ! sid)) \<Longrightarrow>
   this_next op sid i e d c =
     this_done op sid Null
       (set_done sid
          (c\<lparr>heap := before_next op sid i d c,
             sstates := (sstates c)[sid := (sstates c ! sid)\<lparr>st_count := Suc (st_count (sstates c ! sid))\<rparr>]\<rparr>))"
  by (simp add: this_next_Step_next Step_next_def Let_def)

lemma call_this_next:
  "call op c (Call f e d) =
     (if handed f c \<and> state_of f < length (sstates c)
      then this_next op (state_of f) (call_index f c) e d c else c)"
  by (cases f) simp_all

declare call.simps [simp del]

lemma call_cases [case_names idle more finished]:
  fixes op :: operation and c :: config and ev :: event
  defines "c' \<equiv> call op c ev"
  obtains
    (idle) "sstates c' = sstates c" "opers c' = opers c" "trace c' = trace c"
      "length (heap c') = length (heap c)"
  | (more) f e d sid where "ev = Call f e d" "sid = state_of f" "handed f c"
      "sid < length (sstates c)" "\<not> st_done (sstates c ! sid)" "\<not> truthy e"
      "sstates c' = (sstates c)[sid := (sstates c ! sid)\<lparr>st_count := Suc (st_count (sstates c ! sid))\<rparr>]"
      "opers c' = opers c"
      "trace c' = trace c @
         (if serial (steps op ! st_step (sstates c ! sid))
          then [Worker (st_step (sstates c ! sid))
                  (get (heap c' ! st_array (sstates c ! sid)) (Suc (st_count (sstates c ! sid))))
                  (Suc (st_count (sstates c ! sid))) (SerialFn sid)]
          else [])"
      "length (heap c') = length (heap c)"
      "Suc (st_count (sstates c ! sid)) < alength (heap c' ! st_array (sstates c ! sid))"
  | (finished) f e d sid st r e' where "ev = Call f e d" "sid = state_of f" "handed f c"
      "sid < length (sstates c)" "st = sstates c ! sid" "\<not> st_done st"
      "r = st_result (sstates c' ! sid)" "e' = (if truthy e then e else Null)"
      "sstates c' =
         (sstates c)[sid := st\<lparr>st_count := (if truthy e then st_count st else Suc (st_count st)),
                                st_done := True, st_result := r\<rparr>] @
         (if goes_on op (st_oper_state st) e c
          then [StepState (next_index (st_oper_state st) c) (st_oper_state st) r (Some (Suc r))]
          else [])"
      "opers c' =
         (if truthy e then opers c
          else (opers c)[st_oper_state st := Suc (opers c ! st_oper_state st)])"
      "trace c' =
         trace c @
         map (\<lambda>cb. Callback (st_step st) cb e' r (elements (heap c' ! r)))
             (callbacks (steps op ! st_step st)) @
         (if goes_on op (st_oper_state st) e c
          then dispatch op (next_index (st_oper_state st) c) (length (sstates c)) (heap c' ! r)
          else [])"
      "length (heap c) \<le> r"
      "length (heap c') = Suc r + (if goes_on op (st_oper_state st) e c then 1 else 0)"
proof -
  obtain f e d where ev: "ev = Call f e d"
    by (cases ev)
  define sid where "sid = state_of f"
  define st where "st = sstates c ! sid"
  define i where "i = call_index f c"
  define h where "h = before_next op sid i d c"
  show thesis
  proof (cases "handed f c \<and> sid < length (sstates c) \<and> \<not> st_done st")
    case False
    then have "c' = c \<or> c' = c\<lparr>heap := h\<rparr>"
      by (auto simp: c'_def ev call_this_next sid_def st_def h_def i_def this_next_done
               simp del: call.simps)
    then have "sstates c' = sstates c" "opers c' = opers c" "trace c' = trace c"
      "length (heap c') = length (heap c)"
      by (auto simp: h_def)
    then show thesis
      by (rule idle)
  next
    case True
    then have hd: "handed f c" and sid: "sid < length (sstates c)" and nd: "\<not> st_done st"
      by simp_all
    have c': "c' = this_next op sid i e d c"
      using hd sid by (simp add: c'_def ev call_this_next sid_def i_def del: call.simps)
    show thesis
    proof (cases "\<not> truthy e \<and> Suc (st_count st) < alength (h ! st_array st)")
      case True
      then have eq: "c' = c\<lparr>heap := h,
          sstates := (sstates c)[sid := st\<lparr>st_count := Suc (st_count st)\<rparr>],
          trace := trace c @
            (if serial (steps op ! st_step st)
             then [Worker (st_step st) (get (h ! st_array st) (Suc (st_count st)))
                     (Suc (st_count st)) (SerialFn sid)]
             else [])\<rparr>"
        using nd unfolding c' st_def h_def by (simp add: this_next_more)
      show thesis
      proof (rule more [OF ev sid_def hd sid])
        show "\<not> st_done (sstates c ! sid)"
          using nd by (simp add: st_def)
        show "\<not> truthy e"
          using True by simp
      qed (use True in \<open>simp_all add: eq st_def [symmetric] h_def\<close>)
    next
      case False
      define e' where "e' = (if truthy e then e else Null)"
      define cnt where "cnt = (if truthy e then st_count st else Suc (st_count st))"
      define b where "b = c\<lparr>heap := h, sstates := (sstates c)[sid := st\<lparr>st_count := cnt, st_done := True\<rparr>]\<rparr>"
      have eq: "c' = this_done op sid e' b"
      proof (cases "truthy e")
        case True
        then show ?thesis
          using nd sid unfolding c' st_def h_def b_def e'_def cnt_def
          by (simp add: this_next_error set_done_def)
      next
        case f: False
        with False have "\<not> Suc (st_count st) < alength (h ! st_array st)"
          by simp
        then show ?thesis
          using nd sid f unfolding c' st_def h_def b_def e'_def cnt_def
          by (simp add: this_next_last set_done_def)
      qed
      have sb: "sid < length (sstates b)"
        using sid by (simp add: b_def)
      have bs: "sstates b ! sid = st\<lparr>st_count := cnt, st_done := True\<rparr>"
        "opers b = opers c" "trace b = trace c" "length (sstates b) = length (sstates c)"
        "length (heap b) = length (heap c)"
        using sid by (simp_all add: b_def h_def)
      have g: "goes_on op os e' b = goes_on op os e c" "next_index os b = next_index os c" for os
        by (simp_all add: goes_on_def next_index_def bs e'_def)
      note tc = this_done_control [OF sb, of op e', folded eq, unfolded bs g, simplified]
      show thesis
      proof (rule finished [OF ev sid_def hd sid st_def nd refl e'_def])
        show "sstates c' =
           (sstates c)[sid := st\<lparr>st_count := (if truthy e then st_count st else Suc (st_count st)),
                                  st_done := True, st_result := st_result (sstates c' ! sid)\<rparr>] @
           (if goes_on op (st_oper_state st) e c
            then [StepState (next_index (st_oper_state st) c) (st_oper_state st)
                    (st_result (sstates c' ! sid)) (Some (Suc (st_result (sstates c' ! sid))))]
            else [])"
          using tc(1) by (simp add: b_def cnt_def cong: if_cong)
        show "opers c' =
           (if truthy e then opers c
            else (opers c)[st_oper_state st := Suc (opers c ! st_oper_state st)])"
          using tc(2) by (simp add: e'_def)
      qed (use tc in \<open>simp_all cong: if_cong\<close>)
    qed
  qed
qed

subsection \<open>Every state that is reached is well formed\<close>

lemma dispatch_Worker:
  "a \<in> set (dispatch op k sid arr) \<Longrightarrow> \<exists>x i f. a = Worker k x i f \<and> state_of f = sid"
  by (auto simp: dispatch_def split: if_splits)

lemma wf_state_mono:
  "wf_state op c s \<Longrightarrow> length (opers c) \<le> length (opers c') \<Longrightarrow>
   length (heap c) \<le> length (heap c') \<Longrightarrow> wf_state op c' s"
  by (simp add: wf_state_def)

lemma wf_action_mono:
  "wf_action op c a \<Longrightarrow> length (sstates c) \<le> length (sstates c') \<Longrightarrow> wf_action op c' a"
  by (cases a) simp_all

lemma wf_call:
  assumes "wf op c"
  shows "wf op (call op c ev)"
proof (cases rule: call_cases [where op = op and c = c and ev = ev])
  case idle
  have "wf_state op (call op c ev) = wf_state op c"
    by (rule ext) (simp add: wf_state_def idle)
  moreover have "wf_action op (call op c ev) a = wf_action op c a" for a
    by (cases a) (simp_all add: idle)
  ultimately show ?thesis
    using assms by (simp add: wf_def idle cong: list.pred_cong)
next
  case (more f e d sid)
  let ?c' = "call op c ev"
  have st: "wf_state op c (sstates c ! sid)"
    using assms more(4) by (simp add: wf_def list_all_length)
  have 1: "wf_state op ?c' s" if "wf_state op c s" for s
    using that by (simp add: wf_state_def more(8,10))
  have 2: "wf_action op ?c' a" if "wf_action op c a" for a
    using that by (cases a) (simp_all add: more(7))
  have 3: "list_all (wf_state op ?c') (sstates ?c')"
    unfolding more(7) list_all_iff
  proof
    fix s
    assume "s \<in> set ((sstates c)[sid := (sstates c ! sid)\<lparr>st_count := Suc (st_count (sstates c ! sid))\<rparr>])"
    then have "s \<in> set (sstates c) \<or> s = (sstates c ! sid)\<lparr>st_count := Suc (st_count (sstates c ! sid))\<rparr>"
      by (auto dest: set_update_subset_insert [THEN subsetD])
    then show "wf_state op ?c' s"
    proof
      assume "s \<in> set (sstates c)"
      with assms show ?thesis
        by (auto simp: wf_def list_all_iff intro: 1)
    next
      assume "s = (sstates c ! sid)\<lparr>st_count := Suc (st_count (sstates c ! sid))\<rparr>"
      with 1 [OF st] show ?thesis
        by (simp add: wf_state_def)
    qed
  qed
  have 4: "list_all (wf_action op ?c') (trace ?c')"
    using assms st more(4) by (auto simp: more(9) wf_def list_all_iff wf_state_def more(7) intro: 2)
  show ?thesis
    using assms 3 4 by (simp add: wf_def more(10))
next
  case (finished f e d sid st r e')
  let ?c' = "call op c ev"
  let ?g = "goes_on op (st_oper_state st) e c"
  have st: "wf_state op c st"
    using assms finished(4,5) by (simp add: wf_def list_all_length)
  have hl: "length (heap c) \<le> length (heap ?c')" "r < length (heap ?c')" "r \<noteq> array op"
    using finished(12,13) assms by (auto simp: wf_def)
  have ol: "length (opers ?c') = length (opers c)"
    by (simp add: finished(10))
  have sl: "length (sstates c) \<le> length (sstates ?c')"
    by (simp add: finished(9))
  have 1: "wf_state op ?c' s" if "wf_state op c s" for s
    using that hl ol by (simp add: wf_state_def)
  have 2: "wf_action op ?c' a" if "wf_action op c a" for a
    using that sl by (rule wf_action_mono)
  have up: "wf_state op ?c' (st\<lparr>st_count := n, st_done := True, st_result := r\<rparr>)" for n
    using 1 [OF st] hl by (simp add: wf_state_def)
  have new: "wf_state op ?c' (StepState (next_index (st_oper_state st) c) (st_oper_state st) r (Some (Suc r)))"
    if ?g
    using that st hl finished(12,13) ol assms
    by (simp add: wf_state_def StepState_def goes_on_def wf_def)
  have 3: "list_all (wf_state op ?c') (sstates ?c')"
    unfolding list_all_iff
  proof
    fix s
    assume "s \<in> set (sstates ?c')"
    then have "s \<in> set (sstates c)
       \<or> s = st\<lparr>st_count := (if truthy e then st_count st else Suc (st_count st)),
                  st_done := True, st_result := r\<rparr>
       \<or> (?g \<and> s = StepState (next_index (st_oper_state st) c) (st_oper_state st) r (Some (Suc r)))"
      by (subst (asm) finished(9)) (auto dest: set_update_subset_insert [THEN subsetD] split: if_splits)
    then show "wf_state op ?c' s"
      using assms up new by (auto simp: wf_def list_all_iff intro: 1)
  qed
  have k: "st_step st < length (steps op)"
    using st by (simp add: wf_state_def)
  have 4: "list_all (wf_action op ?c') (trace ?c')"
    unfolding list_all_iff
  proof
    fix a
    assume "a \<in> set (trace ?c')"
    then consider "a \<in> set (trace c)"
      | cb where "a = Callback (st_step st) cb e' r (elements (heap ?c' ! r))"
          "cb \<in> set (callbacks (steps op ! st_step st))"
      | "?g" "a \<in> set (dispatch op (next_index (st_oper_state st) c) (length (sstates c)) (heap ?c' ! r))"
      by (subst (asm) finished(11)) (auto split: if_splits)
    then show "wf_action op ?c' a"
    proof cases
      case 1
      with assms show ?thesis
        by (auto simp: wf_def list_all_iff intro: 2)
    next
      case 2
      with k show ?thesis
        by simp
    next
      case 3
      from dispatch_Worker [OF 3(2)] 3(1) show ?thesis
        by (auto simp: goes_on_def finished(9))
    qed
  qed
  show ?thesis
    using assms 3 4 hl by (simp add: wf_def)
qed

lemma calls_Nil [simp]: "calls op c [] = c"
  by (simp add: calls_def)

lemma calls_snoc [simp]: "calls op c (es @ [ev]) = call op (calls op c es) ev"
  by (simp add: calls_def)

lemma calls_Cons: "calls op c (ev # es) = calls op (call op c ev) es"
  by (simp add: calls_def)

lemma calls_append: "calls op c (es @ es') = calls op (calls op c es) es'"
  by (simp add: calls_def)

lemma wf_calls: "wf op c \<Longrightarrow> wf op (calls op c es)"
  by (induction es rule: rev_induct) (simp_all add: wf_call)

lemma wf_exec:
  assumes "wf op c" and "Operation_exec op args c = Some c'"
  shows "wf op c'"
proof -
  have ne: "steps op \<noteq> []" and c': "c' = Step_run op 0 (length (opers c)) (array op) (c\<lparr>opers := opers c @ [0]\<rparr>)"
    using assms(2) by (auto simp: Operation_exec_def Let_def split: if_splits)
  have 1: "wf_state op c' s" if "wf_state op c s" for s
    using that by (simp add: wf_state_def c')
  have 2: "wf_action op c' a" if "wf_action op c a" for a
    using that by (rule wf_action_mono) (simp add: c')
  have 3: "wf_state op c' (StepState 0 (length (opers c)) (array op) (Some (length (heap c))))"
    using ne assms(1) by (simp add: wf_state_def StepState_def c' wf_def)
  have 4: "wf_action op c' a" if "a \<in> set (dispatch op 0 (length (sstates c)) arr)" for a arr
    using dispatch_Worker [OF that] ne by (auto simp: c')
  show ?thesis
    using assms(1) 1 2 3 4 by (auto simp: wf_def list_all_iff c')
qed

lemma wf_start: "array op = 0 \<Longrightarrow> wf op (start xs)"
  by (simp add: wf_def start_def)

subsection \<open>A single execution\<close>

lemma dispatch_step_of:
  "a \<in> set (dispatch op k sid arr) \<Longrightarrow> step_of a = k \<and> \<not> is_callback a"
  by (auto simp: dispatch_def split: if_splits)

lemma solo_live_is_last:
  assumes "solo c" and "sid < length (sstates c)" and "\<not> st_done (sstates c ! sid)"
  shows "Suc sid = length (sstates c)" and "st_step (sstates c ! sid) = sid"
    and "st_oper_state (sstates c ! sid) = 0" and "Suc (opers c ! 0) = length (sstates c)"
proof -
  show 1: "Suc sid = length (sstates c)"
    using assms by (metis solo_def Suc_lessI)
  show "st_step (sstates c ! sid) = sid" "st_oper_state (sstates c ! sid) = 0"
    using assms by (simp_all add: solo_def)
  have "last (sstates c) = sstates c ! sid"
    using 1 assms(1) by (simp add: solo_def last_conv_nth flip: 1)
  then show "Suc (opers c ! 0) = length (sstates c)"
    using assms by (simp add: solo_def)
qed

lemma solo_call:
  assumes "solo c"
  shows "solo (call op c ev)"
proof (cases rule: call_cases [where op = op and c = c and ev = ev])
  case idle
  with assms show ?thesis
    by (simp add: solo_def)
next
  case (more f e d sid)
  let ?c' = "call op c ev"
  note live = solo_live_is_last [OF assms more(4,5)]
  have n: "sstates ?c' ! j = (if j = sid then (sstates c ! sid)\<lparr>st_count := Suc (st_count (sstates c ! sid))\<rparr> else sstates c ! j)"
    if "j < length (sstates c)" for j
    using that by (simp add: more(7) nth_list_update)
  have l: "length (sstates ?c') = length (sstates c)"
    by (simp add: more(7))
  have d: "st_done (sstates ?c' ! j) = st_done (sstates c ! j)"
    "st_step (sstates ?c' ! j) = st_step (sstates c ! j)"
    "st_oper_state (sstates ?c' ! j) = st_oper_state (sstates c ! j)"
    if "j < length (sstates c)" for j
    using that by (simp_all add: n)
  have ne: "sstates c \<noteq> []" "sstates ?c' \<noteq> []"
    using assms l by (auto simp: solo_def)
  have la: "st_done (last (sstates ?c')) = st_done (last (sstates c))"
    using ne d(1) [of "length (sstates c) - 1"] l
    by (simp add: last_conv_nth)
  have t: "step_of a < length (sstates ?c') \<and> (is_callback a \<longrightarrow> st_done (sstates ?c' ! step_of a))"
    if "a \<in> set (trace ?c')" for a
  proof -
    from that have "a \<in> set (trace c) \<or> (step_of a = sid \<and> \<not> is_callback a)"
      by (auto simp: more(9) live(2) split: if_splits)
    then show ?thesis
      using assms more(4) d(1) by (auto simp: solo_def l)
  qed
  have 1: "st_step (sstates ?c' ! j) = j \<and> st_oper_state (sstates ?c' ! j) = 0"
    if "j < length (sstates ?c')" for j
    using that assms d [of j] by (simp add: l solo_def)
  have 2: "st_done (sstates ?c' ! j)" if "Suc j < length (sstates ?c')" for j
    using that assms d(1) [of j] by (simp add: l solo_def)
  have 3: "Suc (opers ?c' ! 0) = length (sstates ?c')" if "\<not> st_done (last (sstates ?c'))"
    using that assms by (simp add: la l more(8) solo_def)
  have 6: "length (opers ?c') = 1"
    using assms by (simp add: more(8) solo_def)
  show ?thesis
    unfolding solo_def using 1 2 3 t ne(2) 6 by blast
next
  case (finished f e d sid st r e')
  let ?c' = "call op c ev"
  let ?g = "goes_on op (st_oper_state st) e c"
  let ?n = "length (sstates c)"
  note live = solo_live_is_last [OF assms finished(4) finished(6) [unfolded finished(5)],
      folded finished(5)]
  have o: "length (opers c) = 1"
    using assms by (simp add: solo_def)
  have ni: "next_index 0 c = ?n"
    using o live(4) by (simp add: next_index_def)
  define st' where "st' = st\<lparr>st_count := (if truthy e then st_count st else Suc (st_count st)),
                              st_done := True, st_result := r\<rparr>"
  define new where "new = StepState ?n 0 r (Some (Suc r))"
  have ss: "sstates ?c' = (sstates c)[sid := st'] @ (if ?g then [new] else [])"
    by (simp add: finished(9) st'_def new_def live(3) ni)
  have n: "sstates ?c' ! j = (if j = sid then st' else sstates c ! j)" if "j < ?n" for j
    using that by (simp add: ss nth_append nth_list_update)
  have nn: "sstates ?c' ! ?n = new" if ?g
    using that by (simp add: ss nth_append)
  have l: "length (sstates ?c') = (if ?g then Suc ?n else ?n)"
    by (simp add: ss)
  have old: "st_step (sstates ?c' ! j) = j \<and> st_oper_state (sstates ?c' ! j) = 0
      \<and> st_done (sstates ?c' ! j)" if "j < ?n" for j
  proof (cases "j = sid")
    case True
    with that show ?thesis
      by (simp add: n st'_def live)
  next
    case False
    with that live(1) have "Suc j < ?n"
      by simp
    with assms that False show ?thesis
      by (simp add: n solo_def)
  qed
  have 1: "st_step (sstates ?c' ! j) = j \<and> st_oper_state (sstates ?c' ! j) = 0"
    if "j < length (sstates ?c')" for j
  proof (cases "j < ?n")
    case True
    then show ?thesis
      using old by simp
  next
    case False
    with that have "?g" "j = ?n"
      by (simp_all add: l split: if_splits)
    then show ?thesis
      by (simp add: nn new_def StepState_def)
  qed
  have 2: "st_done (sstates ?c' ! j)" if "Suc j < length (sstates ?c')" for j
    using that old [of j] by (simp add: l split: if_splits)
  have 3: "Suc (opers ?c' ! 0) = length (sstates ?c')" if "\<not> st_done (last (sstates ?c'))"
  proof (cases ?g)
    case True
    then have "\<not> truthy e"
      by (simp add: goes_on_def)
    then show ?thesis
      using True o live(4) by (simp add: finished(10) live(3) l)
  next
    case False
    have "sstates ?c' \<noteq> []" "length (sstates ?c') - 1 = sid"
      using False live(1) l by auto
    then have "last (sstates ?c') = sstates ?c' ! sid"
      by (simp add: last_conv_nth)
    with that old [of sid] finished(4) show ?thesis
      by simp
  qed
  have 4: "step_of a < length (sstates ?c') \<and> (is_callback a \<longrightarrow> st_done (sstates ?c' ! step_of a))"
    if "a \<in> set (trace ?c')" for a
  proof -
    from that consider "a \<in> set (trace c)" | "step_of a = sid"
      | "?g" "a \<in> set (dispatch op ?n ?n (heap ?c' ! r))"
      by (subst (asm) finished(11)) (auto simp: live(2,3) ni split: if_splits)
    then show ?thesis
    proof cases
      case 1
      with assms have "step_of a < ?n"
        by (simp add: solo_def)
      with old [of "step_of a"] show ?thesis
        by (simp add: l)
    next
      case 2
      with old [of sid] finished(4) show ?thesis
        by (simp add: l)
    next
      case 3
      with dispatch_step_of [OF 3(2)] show ?thesis
        by (simp add: l)
    qed
  qed
  have 5: "sstates ?c' \<noteq> []"
    using assms by (simp add: ss solo_def)
  have 6: "length (opers ?c') = 1"
    using o by (simp add: finished(10))
  show ?thesis
    unfolding solo_def using 1 2 3 4 5 6 by blast
qed


lemma solo_calls: "solo c \<Longrightarrow> solo (calls op c es)"
  by (induction es rule: rev_induct) (simp_all add: solo_call)

lemma solo_exec_start:
  assumes "Operation_exec op args (start xs) = Some c"
  shows "solo c"
proof -
  have c: "c = Step_run op 0 0 (array op) ((start xs)\<lparr>opers := [0]\<rparr>)"
    using assms by (auto simp: Operation_exec_def Let_def start_def split: if_splits)
  have "step_of a = 0 \<and> \<not> is_callback a" if "a \<in> set (trace c)" for a
    using that dispatch_step_of [of a op 0] by (auto simp: c start_def)
  then show ?thesis
    by (auto simp: solo_def c start_def StepState_def)
qed

lemma call_all_done:
  assumes "list_all st_done (sstates c)"
  shows "sstates (call op c ev) = sstates c" and "opers (call op c ev) = opers c"
    and "trace (call op c ev) = trace c"
proof -
  have "sstates (call op c ev) = sstates c \<and> opers (call op c ev) = opers c
        \<and> trace (call op c ev) = trace c"
  proof (cases rule: call_cases [where op = op and c = c and ev = ev])
    case idle
    then show ?thesis
      by simp
  next
    case (more f e d sid)
    with assms show ?thesis
      by (simp add: list_all_length)
  next
    case (finished f e d sid st r e')
    with assms show ?thesis
      by (simp add: list_all_length)
  qed
  then show "sstates (call op c ev) = sstates c" and "opers (call op c ev) = opers c"
    and "trace (call op c ev) = trace c"
    by simp_all
qed

lemma calls_all_done:
  assumes "list_all st_done (sstates c)"
  shows "sstates (calls op c es) = sstates c \<and> opers (calls op c es) = opers c
         \<and> trace (calls op c es) = trace c"
proof (induction es rule: rev_induct)
  case Nil
  show ?case by simp
next
  case (snoc ev es)
  then have "list_all st_done (sstates (calls op c es))"
    using assms by simp
  from call_all_done [OF this, of op ev] snoc show ?case
    by simp
qed

lemma before_done_error: "truthy e \<Longrightarrow> before_done op sid e c = c"
  by (simp add: before_done_def)

lemma handed_wf:
  assumes "wf op c" and "handed f c"
  shows "state_of f < length (sstates c)"
proof -
  from assms(2) obtain a where a: "a \<in> set (trace c)"
    and f: "(case a of Worker k x i g \<Rightarrow> g = f | _ \<Rightarrow> False)"
    by (auto simp: handed_def list_ex_iff)
  from assms(1) a have "wf_action op c a"
    by (simp add: wf_def list_all_iff)
  with f show ?thesis
    by (cases a) simp_all
qed

subsection \<open>A parallel step whose continuations all succeed\<close>

lemma before_next_write:
  "st_result (sstates c ! sid) < length (heap c) \<Longrightarrow>
   before_next op sid i d c =
     (heap c)[st_result (sstates c ! sid) :=
                array_write (kind (steps op ! st_step (sstates c ! sid)))
                  (heap c ! st_result (sstates c ! sid)) i d]"
  by (simp add: before_next_def array_write_def Let_def split: kind.split)

lemma handed_dispatch:
  assumes "\<not> serial (steps op ! k)" and "i < alength a" and "slots a i \<noteq> None"
    and "trace c = tr @ dispatch op k sid a"
  shows "handed (Cont sid i) c"
proof -
  have "Worker k (get a i) i (Cont sid i) \<in> set (trace c)"
    using assms by (auto simp: dispatch_def)
  then show ?thesis
    by (force simp: handed_def list_ex_iff)
qed

lemma parallel_prefix:
  assumes par: "\<not> serial (steps op ! k)" and arr: "arr < length (heap c)"
    and dense: "\<forall>i<alength (heap c ! arr). slots (heap c ! arr) i \<noteq> None"
    and pre: "set pre \<subseteq> {..<alength (heap c ! arr)}" "length pre < alength (heap c ! arr)"
    and ok: "\<forall>i\<in>set pre. \<not> truthy (err i)"
  shows "calls op (Step_run op k os arr c)
           (map (\<lambda>i. Call (Cont (length (sstates c)) i) (err i) (dat i)) pre) =
         (Step_run op k os arr c)
           \<lparr>heap := heap c @ [writes (kind (steps op ! k)) dat pre],
            sstates := sstates c @
              [(StepState k os arr (Some (length (heap c))))\<lparr>st_count := length pre\<rparr>]\<rparr>"
  using pre ok
proof (induction pre rule: rev_induct)
  case Nil
  show ?case
    by (simp add: writes_def StepState_def)
next
  case (snoc x pre)
  let ?sid = "length (sstates c)"
  let ?r = "length (heap c)"
  let ?c1 = "Step_run op k os arr c"
  let ?st = "(StepState k os arr (Some ?r))\<lparr>st_count := length pre\<rparr>"
  let ?b = "?c1\<lparr>heap := heap c @ [writes (kind (steps op ! k)) dat pre],
                 sstates := sstates c @ [?st]\<rparr>"
  from snoc.prems have x: "x < alength (heap c ! arr)" "\<not> truthy (err x)"
    and n: "Suc (length pre) < alength (heap c ! arr)"
    by simp_all
  from snoc have b: "calls op ?c1 (map (\<lambda>i. Call (Cont ?sid i) (err i) (dat i)) pre) = ?b"
    by simp
  have st: "sstates ?b ! ?sid = ?st"
    by simp
  have f: "st_step ?st = k" "st_array ?st = arr" "st_result ?st = ?r" "\<not> st_done ?st"
    "st_count ?st = length pre"
    by (simp_all add: StepState_def)
  have hd: "handed (Cont ?sid x) ?b"
    using par x(1) dense arr
    by (intro handed_dispatch [where a = "heap c ! arr" and k = k and tr = "trace c"])
       (simp_all add: nth_append)
  have bn: "before_next op ?sid x (dat x) ?b =
              heap c @ [writes (kind (steps op ! k)) dat (pre @ [x])]"
    by (subst before_next_write) (simp_all add: st f writes_def)
  have "call op ?b (Call (Cont ?sid x) (err x) (dat x)) =
          ?b\<lparr>heap := heap c @ [writes (kind (steps op ! k)) dat (pre @ [x])],
             sstates := (sstates ?b)[?sid := ?st\<lparr>st_count := Suc (length pre)\<rparr>]\<rparr>"
    using hd x(2) n par arr
    by (simp add: call_this_next, subst this_next_more)
       (simp_all add: st f bn nth_append)
  then show ?case
    by (simp add: b StepState_def)
qed


lemma perm_upt:
  assumes "mset order = mset [0..<n]"
  shows "set order = {..<n}" and "length order = n" and "distinct order"
proof -
  from assms have "set_mset (mset order) = set_mset (mset [0..<n])"
    by simp
  then show "set order = {..<n}"
    by (simp add: lessThan_atLeast0)
  from assms have "size (mset order) = size (mset [0..<n])"
    by simp
  then show "length order = n"
    by simp
  from assms have "distinct order = distinct [0..<n]"
    by (metis mset_eq_imp_distinct_iff)
  then show "distinct order"
    by simp
qed

lemma parallel_complete:
  assumes par: "\<not> serial (steps op ! k)" and arr: "arr < length (heap c)"
    and dense: "\<forall>i<alength (heap c ! arr). slots (heap c ! arr) i \<noteq> None"
    and perm: "mset order = mset [0..<alength (heap c ! arr)]"
    and pos: "0 < alength (heap c ! arr)"
    and ok: "\<forall>i<alength (heap c ! arr). \<not> truthy (err i)"
  shows "calls op (Step_run op k os arr c)
           (map (\<lambda>i. Call (Cont (length (sstates c)) i) (err i) (dat i)) order) =
         this_done op (length (sstates c)) Null
           ((Step_run op k os arr c)
              \<lparr>heap := heap c @ [writes (kind (steps op ! k)) dat order],
               sstates := sstates c @
                 [(StepState k os arr (Some (length (heap c))))
                    \<lparr>st_count := alength (heap c ! arr), st_done := True\<rparr>]\<rparr>)"
proof -
  let ?n = "alength (heap c ! arr)"
  let ?sid = "length (sstates c)"
  let ?r = "length (heap c)"
  let ?c1 = "Step_run op k os arr c"
  note p = perm_upt [OF perm]
  from p(2) pos have "order \<noteq> []"
    by auto
  then obtain pre x where order: "order = pre @ [x]"
    by (meson rev_exhaust)
  let ?st = "(StepState k os arr (Some ?r))\<lparr>st_count := length pre\<rparr>"
  let ?b = "?c1\<lparr>heap := heap c @ [writes (kind (steps op ! k)) dat pre],
                 sstates := sstates c @ [?st]\<rparr>"
  have x: "x < ?n" and pre: "set pre \<subseteq> {..<?n}" "Suc (length pre) = ?n"
    using p(1,2) by (auto simp: order)
  have b: "calls op ?c1 (map (\<lambda>i. Call (Cont ?sid i) (err i) (dat i)) pre) = ?b"
    using par arr dense pre ok by (intro parallel_prefix) auto
  have st: "sstates ?b ! ?sid = ?st"
    by simp
  have f: "st_step ?st = k" "st_array ?st = arr" "st_result ?st = ?r" "\<not> st_done ?st"
    "st_count ?st = length pre"
    by (simp_all add: StepState_def)
  have hd: "handed (Cont ?sid x) ?b"
    using par x dense arr
    by (intro handed_dispatch [where a = "heap c ! arr" and k = k and tr = "trace c"])
       (simp_all add: nth_append)
  have bn: "before_next op ?sid x (dat x) ?b =
              heap c @ [writes (kind (steps op ! k)) dat (pre @ [x])]"
    by (subst before_next_write) (simp_all add: st f writes_def)
  have "call op ?b (Call (Cont ?sid x) (err x) (dat x)) =
          this_done op ?sid Null
            (set_done ?sid
              (?b\<lparr>heap := heap c @ [writes (kind (steps op ! k)) dat (pre @ [x])],
                  sstates := (sstates ?b)[?sid := ?st\<lparr>st_count := Suc (length pre)\<rparr>]\<rparr>))"
    using hd x ok pre(2) par arr
    by (simp add: call_this_next, subst this_next_last)
       (simp_all add: st f bn nth_append)
  then show ?thesis
    by (simp add: order b set_done_def StepState_def pre(2) [symmetric])
qed

lemma writes_snoc: "writes kd dat (is @ [i]) = array_write kd (writes kd dat is) i (dat i)"
  by (simp add: writes_def)

lemma writes_Map:
  "native (writes MapK dat is)"
  "slots (writes MapK dat is) j = (if j \<in> set is then Some (dat j) else None)"
  "j \<in> set is \<Longrightarrow> j < alength (writes MapK dat is)"
  "set is \<subseteq> {..<n} \<Longrightarrow> alength (writes MapK dat is) \<le> n"
proof (induction "is" rule: rev_induct)
  case Nil
  {
    case 1 show ?case by (simp add: writes_def empty_array_def)
  next
    case 2 show ?case by (simp add: writes_def empty_array_def)
  next
    case 3 then show ?case by simp
  next
    case 4 show ?case by (simp add: writes_def empty_array_def)
  }
next
  case (snoc i "is")
  {
    case 1 show ?case
      using snoc(1) by (simp add: writes_snoc array_write_def put_def)
  next
    case 2 show ?case
      using snoc(2) by (simp add: writes_snoc array_write_def put_def)
  next
    case 3 then show ?case
      using snoc(1,3) by (auto simp: writes_snoc array_write_def put_def)
  next
    case 4 then show ?case
      using snoc(1,4) by (auto simp: writes_snoc array_write_def put_def)
  }
qed

lemma elements_writes_Map:
  assumes "mset order = mset [0..<n]"
  shows "elements (writes MapK dat order) = map dat [0..<n]"
proof -
  note p = perm_upt [OF assms]
  have le: "alength (writes MapK dat order) \<le> n"
    using p(1) by (intro writes_Map(4)) simp
  have "n \<le> alength (writes MapK dat order)"
  proof (cases n)
    case 0
    then show ?thesis by simp
  next
    case (Suc m)
    then have "m \<in> set order"
      using p(1) by simp
    from writes_Map(3) [OF this, of dat] Suc show ?thesis
      by simp
  qed
  with le have l: "alength (writes MapK dat order) = n"
    by simp
  show ?thesis
    unfolding elements_def l
    by (rule map_cong [OF refl]) (simp add: get_def writes_Map(2) p(1))
qed


lemma before_done_other:
  "kind (steps op ! st_step (sstates c ! sid)) \<noteq> FilterK \<Longrightarrow> before_done op sid e c = c"
  by (simp add: before_done_def)

subsection \<open>The arrays of a filter step\<close>










subsection \<open>Arrays only grow\<close>












subsection \<open>The worker calls of a serial step\<close>


lemma worker_indices_callbacks [simp]:
  "worker_indices f (map (\<lambda>cb. Callback k cb e r xs) cbs) = []"
  by (induction cbs) simp_all







subsection \<open>A run placed after another\<close>

lemma config_eqI:
  fixes a b :: config
  shows "heap a = heap b \<Longrightarrow> opers a = opers b \<Longrightarrow> sstates a = sstates b \<Longrightarrow>
         trace a = trace b \<Longrightarrow> a = b"
  by simp

lemma embed_simps [simp]:
  "heap (embed P s) = (heap P)[0 := heap s ! 0] @ tl (heap s)"
  "opers (embed P s) = opers P @ opers s"
  "sstates (embed P s) = sstates P @ map (shift_state P) (sstates s)"
  "trace (embed P s) = trace P @ map (shift_action P) (trace s)"
  by (simp_all add: embed_def)


lemma shift_state_updates [simp]:
  "shift_state P (st\<lparr>st_count := n\<rparr>) = (shift_state P st)\<lparr>st_count := n\<rparr>"
  "shift_state P (st\<lparr>st_done := b\<rparr>) = (shift_state P st)\<lparr>st_done := b\<rparr>"
  "shift_state P (st\<lparr>st_result := r\<rparr>) = (shift_state P st)\<lparr>st_result := rho P r\<rparr>"
  by (simp_all add: shift_state_def)





lemma embed_length: "h \<noteq> [] \<Longrightarrow> length ((heap P)[0 := x] @ tl h) = rho P (length h)"
  by (cases h) (simp_all add: rho_def)


















lemma state_of_shift [simp]: "state_of (shift_cont n f) = n + state_of f"
  by (cases f) simp_all

lemma shift_cont_inj [simp]: "shift_cont n g = shift_cont n f \<longleftrightarrow> g = f"
  by (cases g; cases f) simp_all










lemma visible_shift [simp]: "visible (shift_action P a) = visible a"
  by (cases a) simp_all



subsection \<open>A serial step whose continuations all succeed\<close>

lemma handed_serialfn:
  assumes "Worker k x i (SerialFn sid) \<in> set (trace c)"
  shows "handed (SerialFn sid) c"
  using assms by (force simp: handed_def list_ex_iff)

lemma serial_call:
  fixes op :: operation and b :: config and st :: stepstate and d :: jsval
  assumes "serial (steps op ! st_step st)" and "sid < length (sstates b)"
    and "sstates b ! sid = st" and "\<not> st_done st" and "handed (SerialFn sid) b"
    and "\<not> truthy e" and "st_result st < length (heap b)"
    and "st_array st \<noteq> st_result st"
  defines "h \<equiv> (heap b)[st_result st :=
                 array_write (kind (steps op ! st_step st)) (heap b ! st_result st) (st_count st) d]"
  shows "Suc (st_count st) < alength (heap b ! st_array st) \<Longrightarrow>
         call op b (Call (SerialFn sid) e d) =
           b\<lparr>heap := h, sstates := (sstates b)[sid := st\<lparr>st_count := Suc (st_count st)\<rparr>],
             trace := trace b @
               [Worker (st_step st) (get (heap b ! st_array st) (Suc (st_count st)))
                  (Suc (st_count st)) (SerialFn sid)]\<rparr>"
    and "\<not> Suc (st_count st) < alength (heap b ! st_array st) \<Longrightarrow>
         call op b (Call (SerialFn sid) e d) =
           this_done op sid Null
             (b\<lparr>heap := h,
                sstates := (sstates b)[sid := st\<lparr>st_count := Suc (st_count st), st_done := True\<rparr>]\<rparr>)"
proof -
  have bn: "before_next op sid (st_count st) d b = h"
    unfolding h_def using assms(7) by (simp add: before_next_write assms(3))
  have a: "h ! st_array st = heap b ! st_array st"
    using assms(8) by (simp add: h_def)
  have c: "call op b (Call (SerialFn sid) e d) = this_next op sid (st_count st) e d b"
    using assms(2,5) by (simp add: call_this_next assms(3))
  show "call op b (Call (SerialFn sid) e d) =
           b\<lparr>heap := h, sstates := (sstates b)[sid := st\<lparr>st_count := Suc (st_count st)\<rparr>],
             trace := trace b @
               [Worker (st_step st) (get (heap b ! st_array st) (Suc (st_count st)))
                  (Suc (st_count st)) (SerialFn sid)]\<rparr>"
    if "Suc (st_count st) < alength (heap b ! st_array st)"
    unfolding c using that assms(1,4,6)
    by (subst this_next_more) (simp_all add: assms(3) bn a)
  show "call op b (Call (SerialFn sid) e d) =
           this_done op sid Null
             (b\<lparr>heap := h,
                sstates := (sstates b)[sid := st\<lparr>st_count := Suc (st_count st), st_done := True\<rparr>]\<rparr>)"
    if "\<not> Suc (st_count st) < alength (heap b ! st_array st)"
    unfolding c using that assms(1,2,4,6)
    by (subst this_next_last) (simp_all add: assms(3) bn a set_done_def)
qed

lemma serial_prefix:
  assumes ser: "serial (steps op ! k)" and arr: "arr < length (heap c)"
    and j: "j < alength (heap c ! arr)"
    and ok: "\<forall>i<j. \<not> truthy (err i)"
  shows "calls op (Step_run op k os arr c)
           (map (\<lambda>i. Call (SerialFn (length (sstates c))) (err i) (dat i)) [0..<j]) =
         (Step_run op k os arr c)
           \<lparr>heap := heap c @ [writes (kind (steps op ! k)) dat [0..<j]],
            sstates := sstates c @
              [(StepState k os arr (Some (length (heap c))))\<lparr>st_count := j\<rparr>],
            trace := trace c @
              map (\<lambda>i. Worker k (get (heap c ! arr) i) i (SerialFn (length (sstates c))))
                  [0..<Suc j]\<rparr>"
  using j ok
proof (induction j)
  case 0
  show ?case
    using ser arr by (simp add: writes_def StepState_def dispatch_def nth_append)
next
  case (Suc j)
  let ?sid = "length (sstates c)"
  let ?r = "length (heap c)"
  let ?c1 = "Step_run op k os arr c"
  let ?kd = "kind (steps op ! k)"
  let ?w = "\<lambda>i. Worker k (get (heap c ! arr) i) i (SerialFn ?sid)"
  define st where "st = (StepState k os arr (Some ?r))\<lparr>st_count := j\<rparr>"
  define b where "b = ?c1\<lparr>heap := heap c @ [writes ?kd dat [0..<j]],
                 sstates := sstates c @ [st], trace := trace c @ map ?w [0..<Suc j]\<rparr>"
  from Suc.prems have n: "Suc j < alength (heap c ! arr)" and e: "\<not> truthy (err j)"
    by simp_all
  from Suc have b: "calls op ?c1 (map (\<lambda>i. Call (SerialFn ?sid) (err i) (dat i)) [0..<j]) = b"
    by (simp add: b_def st_def)
  have bs: "sstates b ! ?sid = st" "heap b = heap c @ [writes ?kd dat [0..<j]]"
    "sstates b = sstates c @ [st]" "?sid < length (sstates b)"
    "trace b = trace c @ map ?w [0..<Suc j]" "opers b = opers c"
    by (simp_all add: b_def)
  have f: "st_step st = k" "st_array st = arr" "st_result st = ?r" "\<not> st_done st"
    "st_count st = j"
    by (simp_all add: st_def StepState_def)
  have hd: "handed (SerialFn ?sid) b"
    by (rule handed_serialfn [of k "get (heap c ! arr) j" j]) (simp add: bs)
  have "call op b (Call (SerialFn ?sid) (err j) (dat j)) =
          b\<lparr>heap := (heap b)[st_result st :=
                        array_write (kind (steps op ! st_step st)) (heap b ! st_result st)
                          (st_count st) (dat j)],
            sstates := (sstates b)[?sid := st\<lparr>st_count := Suc (st_count st)\<rparr>],
            trace := trace b @
              [Worker (st_step st) (get (heap b ! st_array st) (Suc (st_count st)))
                 (Suc (st_count st)) (SerialFn ?sid)]\<rparr>"
    using ser arr n e hd f(4)
    by (intro serial_call(1)) (simp_all add: bs f nth_append)
  also have "\<dots> = ?c1\<lparr>heap := heap c @ [writes ?kd dat [0..<Suc j]],
            sstates := sstates c @ [(StepState k os arr (Some ?r))\<lparr>st_count := Suc j\<rparr>],
            trace := trace c @ map ?w [0..<Suc (Suc j)]\<rparr>"
    using arr
    by (intro config_eqI) (simp_all add: bs f nth_append writes_def, simp add: st_def)
  finally show ?case
    by (simp add: b)
qed

lemma serial_complete:
  assumes ser: "serial (steps op ! k)" and arr: "arr < length (heap c)"
    and pos: "0 < alength (heap c ! arr)"
    and ok: "\<forall>i<alength (heap c ! arr). \<not> truthy (err i)"
  shows "calls op (Step_run op k os arr c)
           (map (\<lambda>i. Call (SerialFn (length (sstates c))) (err i) (dat i))
                [0..<alength (heap c ! arr)]) =
         this_done op (length (sstates c)) Null
           ((Step_run op k os arr c)
              \<lparr>heap := heap c @ [writes (kind (steps op ! k)) dat [0..<alength (heap c ! arr)]],
               sstates := sstates c @
                 [(StepState k os arr (Some (length (heap c))))
                    \<lparr>st_count := alength (heap c ! arr), st_done := True\<rparr>],
               trace := trace c @
                 map (\<lambda>i. Worker k (get (heap c ! arr) i) i (SerialFn (length (sstates c))))
                     [0..<alength (heap c ! arr)]\<rparr>)"
proof -
  let ?n = "alength (heap c ! arr)"
  let ?sid = "length (sstates c)"
  let ?r = "length (heap c)"
  let ?c1 = "Step_run op k os arr c"
  let ?kd = "kind (steps op ! k)"
  from pos obtain j where n: "?n = Suc j"
    by (cases ?n) simp_all
  let ?w = "\<lambda>i. Worker k (get (heap c ! arr) i) i (SerialFn ?sid)"
  define st where "st = (StepState k os arr (Some ?r))\<lparr>st_count := j\<rparr>"
  define b where "b = ?c1\<lparr>heap := heap c @ [writes ?kd dat [0..<j]],
                 sstates := sstates c @ [st], trace := trace c @ map ?w [0..<Suc j]\<rparr>"
  have b: "calls op ?c1 (map (\<lambda>i. Call (SerialFn ?sid) (err i) (dat i)) [0..<j]) = b"
    unfolding b_def st_def using ser arr ok n by (intro serial_prefix) simp_all
  have bs: "sstates b ! ?sid = st" "heap b = heap c @ [writes ?kd dat [0..<j]]"
    "sstates b = sstates c @ [st]" "?sid < length (sstates b)"
    "trace b = trace c @ map ?w [0..<Suc j]" "opers b = opers c"
    by (simp_all add: b_def)
  have f: "st_step st = k" "st_array st = arr" "st_result st = ?r" "\<not> st_done st"
    "st_count st = j"
    by (simp_all add: st_def StepState_def)
  have hd: "handed (SerialFn ?sid) b"
    by (rule handed_serialfn [of k "get (heap c ! arr) j" j]) (simp add: bs)
  have e: "\<not> truthy (err j)"
    using ok n by simp
  have "call op b (Call (SerialFn ?sid) (err j) (dat j)) =
          this_done op ?sid Null
            (b\<lparr>heap := (heap b)[st_result st :=
                        array_write (kind (steps op ! st_step st)) (heap b ! st_result st)
                          (st_count st) (dat j)],
               sstates := (sstates b)[?sid := st\<lparr>st_count := Suc (st_count st), st_done := True\<rparr>]\<rparr>)"
    using ser arr n e hd f(4)
    by (intro serial_call(2)) (simp_all add: bs f nth_append)
  also have "b\<lparr>heap := (heap b)[st_result st :=
                        array_write (kind (steps op ! st_step st)) (heap b ! st_result st)
                          (st_count st) (dat j)],
               sstates := (sstates b)[?sid := st\<lparr>st_count := Suc (st_count st), st_done := True\<rparr>]\<rparr> =
        ?c1\<lparr>heap := heap c @ [writes ?kd dat [0..<?n]],
            sstates := sstates c @
              [(StepState k os arr (Some ?r))\<lparr>st_count := ?n, st_done := True\<rparr>],
            trace := trace c @ map ?w [0..<?n]\<rparr>"
    unfolding n using arr
    by (intro config_eqI) (simp_all add: bs f nth_append writes_def, simp add: st_def)
  finally show ?thesis
    by (simp add: n b)
qed



lemma writes_ForEach: "writes ForEach dat is = empty_array"
  by (induction "is" rule: rev_induct) (simp_all add: writes_snoc array_write_def, simp add: writes_def)

lemma dispatch_not_callback: "filter is_callback (dispatch op k sid a) = []"
  by (auto simp: filter_empty_conv dest: dispatch_step_of)


text \<open>
  The general form of a for-each run: on an input of
  length \<open>n > 0\<close> a for-each step, parallel or serial, whose continuations are all called
  without error calls its worker \<open>n\<close> times, for the elements in order, then each completion
  callback once with \<^verbatim>\<open>null\<close>; the sequence it hands over is always empty.
\<close>

lemma forEach_result:
  assumes "kind (steps op ! k) = ForEach"
    and "arr < length (heap c)" and "alength (heap c ! arr) = n" and "0 < n"
    and "\<forall>i<n. slots (heap c ! arr) i \<noteq> None"
    and "mset order = mset [0..<n]"
    and "\<forall>i<n. \<not> truthy (err i)"
  shows "(let sid = length (sstates c); r = Suc (length (heap c));
              c2 = calls op (Step_run op k os arr c)
                     (if serial (steps op ! k)
                      then map (\<lambda>i. Call (SerialFn sid) (err i) (dat i)) [0..<n]
                      else map (\<lambda>i. Call (Cont sid i) (err i) (dat i)) order);
              new = drop (length (trace c)) (trace c2)
          in st_done (sstates c2 ! sid) \<and> st_result (sstates c2 ! sid) = r
             \<and> elements (heap c2 ! r) = []
             \<and> map visible (take n new) = map (\<lambda>i. Inl (k, get (heap c ! arr) i, i)) [0..<n]
             \<and> take (length (callbacks (steps op ! k))) (drop n new) =
                 map (\<lambda>cb. Callback k cb Null r []) (callbacks (steps op ! k))
             \<and> filter is_callback new =
                 map (\<lambda>cb. Callback k cb Null r []) (callbacks (steps op ! k)))"
proof -
  define sid where "sid = length (sstates c)"
  define st where "st = (StepState k os arr (Some (length (heap c))))\<lparr>st_count := n, st_done := True\<rparr>"
  define ws where "ws = (if serial (steps op ! k)
      then map (\<lambda>i. Worker k (get (heap c ! arr) i) i (SerialFn sid)) [0..<n]
      else map (\<lambda>i. Worker k (get (heap c ! arr) i) i (Cont sid i)) [0..<n])"
  define b where "b = (Step_run op k os arr c)\<lparr>heap := heap c @ [empty_array],
                        sstates := sstates c @ [st], trace := trace c @ ws\<rparr>"
  define c2 where "c2 = calls op (Step_run op k os arr c)
                     (if serial (steps op ! k)
                      then map (\<lambda>i. Call (SerialFn sid) (err i) (dat i)) [0..<n]
                      else map (\<lambda>i. Call (Cont sid i) (err i) (dat i)) order)"
  define cbs where "cbs = map (\<lambda>cb. Callback k cb Null (Suc (length (heap c))) [])
                            (callbacks (steps op ! k))"
  have dense: "filter (\<lambda>i. slots (heap c ! arr) i \<noteq> None) [0..<n] = [0..<n]"
    using assms(5) by (simp add: filter_id_conv)
  have bs: "sstates b ! sid = st" "st_step st = k" "st_oper_state st = os"
    "st_result st = length (heap c)" "heap b = heap c @ [empty_array]"
    "length (sstates b) = Suc sid" "trace b = trace c @ ws"
    by (simp_all add: b_def sid_def st_def StepState_def)
  have "c2 = this_done op sid Null b"
  proof (cases "serial (steps op ! k)")
    case True
    then show ?thesis
      unfolding c2_def sid_def b_def st_def ws_def
      using assms
        serial_complete [where op = op and k = k and arr = arr and c = c and err = err
          and os = os and dat = dat]
      by (simp add: writes_ForEach)
  next
    case False
    have "(Step_run op k os arr c)\<lparr>heap := heap c @ [empty_array], sstates := sstates c @ [st]\<rparr> = b"
      using False assms(2,3) dense
      by (intro config_eqI) (simp_all add: b_def ws_def dispatch_def nth_append sid_def)
    with False show ?thesis
      unfolding c2_def sid_def st_def
      using assms
        parallel_complete [where op = op and k = k and arr = arr and c = c and order = order
          and err = err and os = os and dat = dat]
      by (simp add: writes_ForEach)
  qed
  then have c2: "c2 = Step_done op sid Null b"
    by (simp add: this_done_Step_done before_done_other bs assms(1))
  have 1: "st_done (sstates c2 ! sid)" "st_result (sstates c2 ! sid) = Suc (length (heap c))"
    by (simp_all add: c2 Step_done_simps bs nth_append) (simp_all add: st_def)
  have 2: "elements (heap c2 ! Suc (length (heap c))) = []"
    by (simp add: c2 Step_done_simps bs nth_append) (simp add: elements_def empty_array_def)
  have l: "length ws = n" "filter is_callback ws = []" "length cbs = length (callbacks (steps op ! k))"
    "filter is_callback cbs = cbs"
    by (simp_all add: ws_def cbs_def filter_empty_conv filter_map comp_def)
  have v: "map visible ws = map (\<lambda>i. Inl (k, get (heap c ! arr) i, i)) [0..<n]"
    by (simp add: ws_def)
  have "elements (heap b ! length (heap c)) = []"
    by (simp add: bs elements_def empty_array_def)
  then obtain rest where t: "drop (length (trace c)) (trace c2) = ws @ cbs @ rest"
    and r: "filter is_callback rest = []"
    by (simp add: c2 Step_done_simps bs cbs_def dispatch_not_callback cong: if_cong)
  show ?thesis
    unfolding Let_def sid_def [symmetric] c2_def [symmetric] t cbs_def [symmetric]
    using 1 2 l v r by simp
qed


text \<open>
  What a late call cannot do: a continuation called after its step is done makes no call,
  starts no step and moves no counter or latch; for a for-each step it changes nothing at
  all.
\<close>

lemma late_call:
  assumes "st_done (sstates c ! state_of f)"
  shows "sstates (call op c (Call f e d)) = sstates c"
    and "opers (call op c (Call f e d)) = opers c"
    and "trace (call op c (Call f e d)) = trace c"
    and "kind (steps op ! st_step (sstates c ! state_of f)) = ForEach \<Longrightarrow>
         call op c (Call f e d) = c"
proof -
  have "call op c (Call f e d) = c
        \<or> call op c (Call f e d) =
            c\<lparr>heap := before_next op (state_of f) (call_index f c) d c\<rparr>"
    using assms by (auto simp: call_this_next this_next_done)
  then show "sstates (call op c (Call f e d)) = sstates c"
    and "opers (call op c (Call f e d)) = opers c"
    and "trace (call op c (Call f e d)) = trace c"
    by auto
  show "call op c (Call f e d) = c"
    if "kind (steps op ! st_step (sstates c ! state_of f)) = ForEach"
    using assms that by (simp add: call_this_next this_next_done before_next_def)
qed

text \<open>
  What a first error does: take any chain on the caller's \<^verbatim>\<open>AsyncArray\<close>, any point of its execution, and a
  continuation of a step that is not yet done; let it be called with a truthy error. Then
  the step is the one the chain has reached and no later step has been started; the step
  is latched done; each completion callback registered on it is called, in registration
  order, with the error and a sequence holding the result as it stood (for a map or filter
  step, after the write this very call makes); and whatever continuation is called
  afterwards, with an error or without, no further call is made to any worker or callback,
  no step is started, and no counter or latch moves. In the whole execution the callbacks
  of the failed step are called exactly once each, and no call belongs to a later step.
\<close>

lemma first_error:
  assumes "array op = 0" and "Operation_exec op args (start xs) = Some c0"
    and "handed f (calls op c0 es)"
    and "\<not> st_done (sstates (calls op c0 es) ! state_of f)"
    and "truthy e"
  shows "(let c = calls op c0 es; sid = state_of f; c1 = call op c (Call f e d);
              c2 = calls op c1 es';
              called = map (\<lambda>cb. Callback sid cb e (length (heap c))
                          (elements (before_next op sid (call_index f c) d c
                                       ! st_result (sstates c ! sid))))
                         (callbacks (steps op ! sid))
          in st_step (sstates c ! sid) = sid \<and> Suc sid = length (sstates c)
             \<and> st_done (sstates c1 ! sid)
             \<and> trace c1 = trace c @ called
             \<and> trace c2 = trace c1 \<and> sstates c2 = sstates c1
             \<and> opers c2 = opers c1 \<and> opers c1 = opers c
             \<and> length (sstates c2) = Suc sid
             \<and> filter (\<lambda>a. is_callback a \<and> step_of a = sid) (trace c2) = called
             \<and> (\<forall>a\<in>set (trace c2). step_of a \<le> sid))"
proof -
  define c where "c = calls op c0 es"
  define sid where "sid = state_of f"
  define st where "st = sstates c ! sid"
  define h where "h = before_next op sid (call_index f c) d c"
  define c1 where "c1 = call op c (Call f e d)"
  define c2 where "c2 = calls op c1 es'"
  define called where "called = map (\<lambda>cb. Callback sid cb e (length (heap c))
      (elements (h ! st_result st))) (callbacks (steps op ! sid))"
  have wf: "wf op c" and solo: "solo c"
    unfolding c_def using assms(1,2)
    by (blast intro: wf_calls wf_exec wf_start solo_calls solo_exec_start)+
  have hd: "handed f c" and nd: "\<not> st_done st"
    using assms(3,4) by (simp_all add: c_def st_def sid_def)
  have sid: "sid < length (sstates c)"
    unfolding sid_def using wf hd by (rule handed_wf)
  note live = solo_live_is_last [OF solo sid nd [unfolded st_def], folded st_def]
  have c1: "c1 = Step_done op sid e (set_done sid (c\<lparr>heap := h\<rparr>))"
    using hd sid nd assms(5) unfolding c1_def h_def st_def
    by (simp add: call_this_next sid_def [symmetric] this_next_error this_done_Step_done
          before_done_error)
  have g: "\<not> goes_on op os e b" for os b
    using assms(5) by (simp add: goes_on_def)
  have b: "sstates (set_done sid (c\<lparr>heap := h\<rparr>)) ! sid = st\<lparr>st_done := True\<rparr>"
    "heap (set_done sid (c\<lparr>heap := h\<rparr>)) = h" "length h = length (heap c)"
    using sid by (simp_all add: set_done_def st_def h_def)
  have s1: "sstates c1 = (sstates c)[sid := st\<lparr>st_done := True, st_result := length (heap c)\<rparr>]"
    using sid by (simp add: c1 Step_done_simps g b) (simp add: set_done_def st_def)
  have t1: "trace c1 = trace c @ called"
    by (simp add: c1 Step_done_simps g b called_def live) (simp add: set_done_def)
  have o1: "opers c1 = opers c"
    using assms(5) by (simp add: c1 Step_done_simps) (simp add: set_done_def)
  have d1: "st_done (sstates c1 ! sid)"
    using sid by (simp add: s1)
  have all: "list_all st_done (sstates c1)"
    unfolding list_all_length
  proof (intro allI impI)
    fix j
    assume "j < length (sstates c1)"
    then have j: "j < length (sstates c)"
      by (simp add: s1)
    show "st_done (sstates c1 ! j)"
    proof (cases "j = sid")
      case True
      with d1 show ?thesis by simp
    next
      case False
      with j live(1) have "Suc j < length (sstates c)"
        by simp
      with solo False show ?thesis
        by (simp add: s1 solo_def)
    qed
  qed
  note fr = calls_all_done [OF all, of op es', folded c2_def]
  have old: "step_of a \<le> sid \<and> \<not> (is_callback a \<and> step_of a = sid)" if "a \<in> set (trace c)" for a
  proof -
    from solo that have 1: "step_of a < length (sstates c)"
      and 2: "is_callback a \<longrightarrow> st_done (sstates c ! step_of a)"
      by (simp_all add: solo_def)
    from 1 live(1) have "step_of a \<le> sid"
      by simp
    moreover from 2 nd have "\<not> (is_callback a \<and> step_of a = sid)"
      by (auto simp: st_def)
    ultimately show ?thesis
      by simp
  qed
  have f0: "filter (\<lambda>a. is_callback a \<and> step_of a = sid) (trace c) = []"
    using old by (auto simp: filter_empty_conv)
  have f1: "filter (\<lambda>a. is_callback a \<and> step_of a = sid) called = called"
    by (simp add: called_def filter_map comp_def)
  have le: "\<forall>a\<in>set (trace c2). step_of a \<le> sid"
    using old by (auto simp: fr t1 called_def)
  have "st_step (sstates c ! sid) = sid \<and> Suc sid = length (sstates c)
        \<and> st_done (sstates c1 ! sid)
        \<and> trace c1 = trace c @ called
        \<and> trace c2 = trace c1 \<and> sstates c2 = sstates c1
        \<and> opers c2 = opers c1 \<and> opers c1 = opers c
        \<and> length (sstates c2) = Suc sid
        \<and> filter (\<lambda>a. is_callback a \<and> step_of a = sid) (trace c2) = called
        \<and> (\<forall>a\<in>set (trace c2). step_of a \<le> sid)"
    using live(1,2) d1 t1 fr o1 le by (simp add: st_def s1 f0 f1)
  then show ?thesis
    unfolding Let_def c_def [symmetric] sid_def [symmetric] c1_def [symmetric]
      c2_def [symmetric] h_def [symmetric] st_def [symmetric] called_def [symmetric] .
qed



section \<open>Runs that show where the code departs from its description\<close>

text \<open>
  C1. A serial filter over \<open>[1, 2, 'three', 4]\<close> whose worker keeps the elements that are
  not strings hands its completion callback the positions \<open>[0, 1, 3]\<close> of the kept
  elements, not the elements \<open>[1, 2, 4]\<close>: \<^verbatim>\<open>Filter.prototype.done\<close> maps positions back to
  elements only under \<^verbatim>\<open>!this.serial\<close>.
\<close>

theorem filterSerial_hands_over_positions:
  "trace (calls filterSerial_chain (the (Operation_exec filterSerial_chain [] (start items)))
            (map (\<lambda>x. case keep_nonstrings x of (e, d) \<Rightarrow> Call (SerialFn 0) e d) items)) =
     [Worker 0 (Num 1) 0 (SerialFn 0), Worker 0 (Num 2) 1 (SerialFn 0),
      Worker 0 (Str ''three'') 2 (SerialFn 0), Worker 0 (Num 4) 3 (SerialFn 0),
      Callback 0 7 Null 2 [Num 0, Num 1, Num 3]]"
  by code_simp

text \<open>
  C2. A for-each step over \<open>[1, 2]\<close> that completes hands its completion callback, and the
  map step after it, a new and empty sequence, not its input: \<^verbatim>\<open>run\<close> always passes a
  fresh \<^verbatim>\<open>[]\<close> to \<^verbatim>\<open>StepState\<close>, so the default \<^verbatim>\<open>result || array\<close> never applies. The
  parallel map step that follows is started on the empty sequence and calls no worker.
\<close>

theorem forEach_result_is_empty:
  "(let c = calls forEach_map_chain
              (the (Operation_exec forEach_map_chain [] (start [Num 1, Num 2])))
              [Call (Cont 0 0) Undefined Undefined, Call (Cont 0 1) Undefined Undefined]
    in trace c = [Worker 0 (Num 1) 0 (Cont 0 0), Worker 0 (Num 2) 1 (Cont 0 1),
                  Callback 0 7 Null 2 []]
       \<and> st_array (sstates c ! 0) = 0 \<and> elements (heap c ! 0) = [Num 1, Num 2]
       \<and> st_result (sstates c ! 0) = 2
       \<and> st_array (sstates c ! 1) = 2 \<and> elements (heap c ! 2) = [])"
  by code_simp

text \<open>
  C5. On the empty sequence a parallel for-each calls no worker, hands out no continuation,
  and so never calls its completion callback, whatever happens afterwards; a serial
  for-each calls its worker once, for index 0 and the item \<^verbatim>\<open>undefined\<close>.
\<close>

theorem forEach_on_empty_sequence:
  "trace (calls forEach_chain (the (Operation_exec forEach_chain [] (start []))) es) = []
   \<and> trace (the (Operation_exec forEachSerial_chain [] (start []))) =
       [Worker 0 Undefined 0 (SerialFn 0)]"
proof
  let ?c = "the (Operation_exec forEach_chain [] (start []))"
  have t: "trace ?c = []"
    by code_simp
  have "calls forEach_chain ?c es = ?c"
    unfolding calls_def
  proof (induction es rule: rev_induct)
    case Nil
    show ?case by simp
  next
    case (snoc e es)
    obtain f x y where e: "e = Call f x y"
      by (cases e)
    have "\<not> handed f ?c"
      by (simp add: handed_def t)
    with snoc e show ?case
      by (simp add: call_this_next)
  qed
  with t show "trace (calls forEach_chain ?c es) = []"
    by simp
next
  show "trace (the (Operation_exec forEachSerial_chain [] (start []))) =
          [Worker 0 Undefined 0 (SerialFn 0)]"
    by code_simp
qed

text \<open>
  C7. A continuation called after its step is done still writes. For a map step over
  \<open>[1, 2]\<close> that has completed with \<open>['a', 'b']\<close>, calling the continuation of element 0 again
  with \<open>'z'\<close> turns the sequence already handed to the completion callback into
  \<open>['z', 'b']\<close>. For the parallel filter of \<^verbatim>\<open>test.js\<close>, completed with \<open>[1, 2, 4]\<close>, calling a
  continuation again with \<^verbatim>\<open>true\<close> appends its index to that sequence.
\<close>

theorem late_continuation_writes_result:
  "(let c = calls map_chain (the (Operation_exec map_chain [] (start [Num 1, Num 2])))
              [Call (Cont 0 1) Null (Str ''b''), Call (Cont 0 0) Null (Str ''a'')];
        c' = call map_chain c (Call (Cont 0 0) Null (Str ''z''))
    in st_done (sstates c ! 0) \<and> st_result (sstates c' ! 0) = st_result (sstates c ! 0)
       \<and> elements (heap c ! st_result (sstates c ! 0)) = [Str ''a'', Str ''b'']
       \<and> elements (heap c' ! st_result (sstates c ! 0)) = [Str ''z'', Str ''b''])
   \<and> (let c = calls filter_chain (the (Operation_exec filter_chain [] (start items)))
              (map (\<lambda>i. case keep_nonstrings (items ! i) of (e, d) \<Rightarrow> Call (Cont 0 i) e d)
                   [3, 2, 1, 0]);
        c' = call filter_chain c (Call (Cont 0 0) Null (Bool True))
    in st_done (sstates c ! 0) \<and> st_result (sstates c' ! 0) = st_result (sstates c ! 0)
       \<and> elements (heap c ! st_result (sstates c ! 0)) = [Num 1, Num 2, Num 4]
       \<and> elements (heap c' ! st_result (sstates c ! 0)) = [Num 1, Num 2, Num 4, Num 0])"
  by code_simp

text \<open>
  C3. After a first error a later completion is not discarded. In the map run of
  \<^verbatim>\<open>test.js\<close> over \<open>[1, 2, 'three', 4]\<close>, let the continuation of \<open>'three'\<close> be called first,
  with an error: the step is latched done and the completion callback receives the error
  and the sequence \<open>[undefined, undefined, undefined]\<close>. When the continuations of the
  elements 1 and 2 are then called, each for the first time and without error, no call is
  made and the result stays the same object, but its elements, which the callback holds,
  become \<open>[1, 2, undefined]\<close>: \<^verbatim>\<open>Map.prototype.next\<close> writes before \<^verbatim>\<open>Step.prototype.next\<close>
  tests \<^verbatim>\<open>state.done\<close>.
\<close>

theorem late_success_after_error:
  "(let c0 = the (Operation_exec map_chain [] (start items));
        c1 = call map_chain c0 (Call (Cont 0 2) (Error ''stupid'') Undefined);
        c2 = calls map_chain c1 [Call (Cont 0 0) Null (Num 1), Call (Cont 0 1) Null (Num 2)]
    in \<not> st_done (sstates c0 ! 0) \<and> st_done (sstates c1 ! 0)
       \<and> trace c1 = trace c0 @ [Callback 0 7 (Error ''stupid'') 2 [Undefined, Undefined, Undefined]]
       \<and> elements (heap c1 ! 2) = [Undefined, Undefined, Undefined]
       \<and> trace c2 = trace c1 \<and> st_result (sstates c2 ! 0) = 2
       \<and> elements (heap c2 ! 2) = [Num 1, Num 2, Undefined])"
  by code_simp

section \<open>What holds of every chain\<close>

text \<open>
  C10. \<^verbatim>\<open>exec\<close> does not look at its arguments: with any arguments it leaves the same state
  as with none. And whatever is passed to it, every call the engine makes during the
  execution of a chain on the caller's \<^verbatim>\<open>AsyncArray\<close> is either the worker of a step of the
  chain or a completion callback registered on that step with \<^verbatim>\<open>done\<close>; a function that
  was only passed to \<^verbatim>\<open>exec\<close> is never called.
\<close>

theorem exec_argument_is_inert:
  "Operation_exec op args c = Operation_exec op [] c
   \<and> (array op = 0 \<longrightarrow> Operation_exec op args (start xs) = Some c' \<longrightarrow>
        (\<forall>a\<in>set (trace (calls op c' es)). wf_action op (calls op c' es) a))"
proof (intro conjI impI)
  show "Operation_exec op args c = Operation_exec op [] c"
    by (simp add: Operation_exec_def)
next
  assume "array op = 0" and "Operation_exec op args (start xs) = Some c'"
  then have "wf op (calls op c' es)"
    by (blast intro: wf_calls wf_exec wf_start)
  then show "\<forall>a\<in>set (trace (calls op c' es)). wf_action op (calls op c' es) a"
    by (simp add: wf_def list_all_iff)
qed

theorem exec_argument_is_inert_witness:
  "array map_chain = 0
   \<and> Operation_exec map_chain [Fn 9] (start items) = Operation_exec map_chain [] (start items)
   \<and> list_all
        (wf_action map_chain
           (calls map_chain (the (Operation_exec map_chain [Fn 9] (start items))) map_events))
        (trace (calls map_chain (the (Operation_exec map_chain [Fn 9] (start items))) map_events))"
proof -
  have a: "array map_chain = 0"
    by code_simp
  have b: "Operation_exec map_chain [Fn 9] (start items) =
             Some (the (Operation_exec map_chain [Fn 9] (start items)))"
    by (simp add: Operation_exec_def map_chain_def Operation_done_def lastStep_def map_op_def Operation_def
          Let_def)
  note t = exec_argument_is_inert [of map_chain "[Fn 9]" "start items" items
      "the (Operation_exec map_chain [Fn 9] (start items))" map_events]
  from t have 1: "Operation_exec map_chain [Fn 9] (start items) =
                    Operation_exec map_chain [] (start items)"
    by (rule conjunct1)
  from t a b have 2: "list_all
        (wf_action map_chain
           (calls map_chain (the (Operation_exec map_chain [Fn 9] (start items))) map_events))
        (trace (calls map_chain (the (Operation_exec map_chain [Fn 9] (start items))) map_events))"
    unfolding list_all_iff by blast
  from a 1 2 show ?thesis
    by blast
qed

text \<open>
  C4. Let a parallel map step be started, at any point of any chain, on a sequence of
  length \<open>n > 0\<close>, and let its \<open>n\<close> continuations be called once each without error, in any
  order, the one of element \<open>i\<close> with the value \<open>dat i\<close>. Then the step is done, its result
  is a new sequence of length \<open>n\<close> whose element \<open>i\<close> is \<open>dat i\<close>, and each completion
  callback of the step is called once, in registration order, with \<^verbatim>\<open>null\<close> and that
  sequence.
\<close>

theorem map_result_is_positional:
  assumes "k < length (steps op)" and "kind (steps op ! k) = MapK"
    and "\<not> serial (steps op ! k)"
    and "arr < length (heap c)" and "alength (heap c ! arr) = n" and "0 < n"
    and "\<forall>i<n. slots (heap c ! arr) i \<noteq> None"
    and "mset order = mset [0..<n]"
    and "\<forall>i<n. \<not> truthy (err i)"
  shows "(let sid = length (sstates c); r = Suc (length (heap c));
              c2 = calls op (Step_run op k os arr c)
                     (map (\<lambda>i. Call (Cont sid i) (err i) (dat i)) order)
          in st_done (sstates c2 ! sid) \<and> st_result (sstates c2 ! sid) = r
             \<and> alength (heap c2 ! r) = n
             \<and> elements (heap c2 ! r) = map dat [0..<n]
             \<and> filter is_callback (drop (length (trace c)) (trace c2)) =
                 map (\<lambda>cb. Callback k cb Null r (map dat [0..<n])) (callbacks (steps op ! k)))"
proof -
  define sid where "sid = length (sstates c)"
  define W where "W = writes MapK dat order"
  define st where "st = (StepState k os arr (Some (length (heap c))))\<lparr>st_count := n, st_done := True\<rparr>"
  define b where "b = (Step_run op k os arr c)\<lparr>heap := heap c @ [W], sstates := sstates c @ [st]\<rparr>"
  define c2 where "c2 = calls op (Step_run op k os arr c)
                     (map (\<lambda>i. Call (Cont sid i) (err i) (dat i)) order)"
  have W: "elements W = map dat [0..<n]"
    unfolding W_def using assms(8) by (rule elements_writes_Map)
  then have lW: "alength W = n"
    by (metis length_elements length_map length_upt minus_nat.diff_0)
  have bs: "sstates b ! sid = st" "st_step st = k" "st_oper_state st = os"
    "st_result st = length (heap c)" "heap b = heap c @ [W]" "length (sstates b) = Suc sid"
    "trace b = trace c @ dispatch op k sid (heap c ! arr)"
    using assms(4) by (simp_all add: b_def sid_def st_def StepState_def nth_append)
  have "c2 = this_done op sid Null b"
    unfolding c2_def sid_def b_def st_def W_def
    using assms
      parallel_complete [where op = op and k = k and arr = arr and c = c and order = order
        and err = err and os = os and dat = dat]
    by simp
  then have c2: "c2 = Step_done op sid Null b"
    by (simp add: this_done_Step_done before_done_other bs assms(2))
  have d: "a \<in> set (dispatch op k' sid' arr') \<Longrightarrow> \<not> is_callback a" for a k' sid' arr'
    by (drule dispatch_step_of) simp
  have 1: "st_done (sstates c2 ! sid)" "st_result (sstates c2 ! sid) = Suc (length (heap c))"
    by (simp_all add: c2 Step_done_simps bs nth_append) (simp_all add: st_def)
  have 2: "heap c2 ! Suc (length (heap c)) = AsyncArray (Some W)"
    by (simp add: c2 Step_done_simps bs nth_append)
  have 3: "filter is_callback (drop (length (trace c)) (trace c2)) =
             map (\<lambda>cb. Callback k cb Null (Suc (length (heap c))) (map dat [0..<n]))
                 (callbacks (steps op ! k))"
    using d by (auto simp: c2 Step_done_simps bs filter_map comp_def W filter_empty_conv)
  show ?thesis
    unfolding Let_def sid_def [symmetric] c2_def [symmetric]
    using 1 2 3 W lW by simp
qed

theorem map_result_is_positional_witness:
  "(let c2 = calls map_chain (the (Operation_exec map_chain [] (start items)))
               (map (\<lambda>i. Call (Cont 0 i) Null (did i)) [3, 1, 0, 2])
    in st_done (sstates c2 ! 0) \<and> st_result (sstates c2 ! 0) = 2
       \<and> elements (heap c2 ! 2) = [Str ''did 0'', Str ''did 1'', Str ''did 2'', Str ''did 3'']
       \<and> filter is_callback (trace c2) =
           [Callback 0 7 Null 2 [Str ''did 0'', Str ''did 1'', Str ''did 2'', Str ''did 3'']])"
proof -
  define c where "c = (start items)\<lparr>opers := [0]\<rparr>"
  have e: "the (Operation_exec map_chain [] (start items)) = Step_run map_chain 0 0 0 c"
    by (simp add: Operation_exec_def map_chain_def Operation_done_def lastStep_def map_op_def Operation_def
          Let_def c_def start_def)
  have h: "heap c ! 0 = AsyncArray (Some (of_list items))" "length (heap c) = 1"
    "sstates c = []" "trace c = []"
    by (simp_all add: c_def start_def)
  have 1: "0 < length (steps map_chain)" "kind (steps map_chain ! 0) = MapK"
    "\<not> serial (steps map_chain ! 0)" "callbacks (steps map_chain ! 0) = [7]"
    by code_simp+
  have 2: "(0::nat) < length (heap c)" "alength (heap c ! 0) = 4" "(0::nat) < 4"
    by (simp_all add: h items_def)
  have 3: "\<forall>i<4. slots (heap c ! 0) i \<noteq> None"
    by (simp add: h slots_AsyncArray items_def)
  have 4: "mset [3, 1, 0, 2] = mset [0..<4::nat]"
    by code_simp
  have 5: "\<forall>i<4::nat. \<not> truthy Null"
    by simp
  have 6: "map did [0..<4] = [Str ''did 0'', Str ''did 1'', Str ''did 2'', Str ''did 3'']"
    by (simp add: upt_rec did_def)
  note t = map_result_is_positional [OF 1(1,2,3) 2 3 4 5, where dat = did and os = 0,
      unfolded Let_def h 1(4) 6, folded e]
  then show ?thesis
    unfolding Let_def by (simp add: eval_nat_numeral)
qed








end
